theory Spec2Isabelle
  imports Main "HOL-Library.Word"
begin

unbundle bit_operations_syntax

section \<open>Data model of the capture and histogram program\<close>

text \<open>
  The program runs on a 68HCS12. \<open>types.h\<close> is not among the sources; \<open>UINT8\<close> and
  \<open>UINT16\<close> are taken to be what their names say, the unsigned 8- and 16-bit integers,
  whose arithmetic wraps around. The compile-time constants are those of \<open>globals.h\<close>
  and \<open>main.c\<close>.
\<close>

type_synonym UINT8 = "8 word"
type_synonym UINT16 = "16 word"

definition NUM_CAPTURES :: UINT16 where
  "NUM_CAPTURES = 1000"

definition LOW_PERIOD :: UINT16 where
  "LOW_PERIOD = 0x03B6"

definition NUM_BUCKETS :: UINT16 where
  "NUM_BUCKETS = 100"

text \<open>
  Modelled from the spec: \<open>derivative.h\<close> is not among the sources. The timer "exposes
  a free-running counter readable as the Timer Sample source, an edge-interrupt
  enable/disable control, and an interrupt-acknowledge flag". \<open>TIE_C1I\<close> is the enable
  bit of channel 1; \<open>TFLG1\<close> is the flag register, whose bits are cleared by writing a
  one to them; \<open>TFLG1_C1F_MASK\<close> selects the flag of channel 1 (bit 1).
\<close>

definition TFLG1_C1F_MASK :: UINT8 where
  "TFLG1_C1F_MASK = 0x02"

text \<open>
  The state is the global variables of \<open>main.c\<close>, the two timer registers the program
  writes, and the characters still to come on the serial line. A history of events
  records, in program order, the calls of \<open>printf\<close> and \<open>GetChar\<close>, the writes to the
  registers, the assignments to the capture buffer, the cursor and the completion flag,
  and the reset of the bucket table. (The increments of the counters by
  \<open>process_values\<close> are not recorded.)
\<close>

datatype event =
    Ev_printf string
  | Ev_GetChar UINT8
  | Ev_memset_num_occurances
  | Ev_store_capture_values nat UINT16
  | Ev_set_capture_idx UINT16
  | Ev_set_finished_capturing UINT8
  | Ev_set_TIE_C1I bool
  | Ev_write_TFLG1 UINT8

record state =
  num_occurances :: "UINT16 list"
  capture_values :: "UINT16 list"
  capture_idx :: UINT16
  finished_capturing :: UINT8
  TIE_C1I :: bool
  TFLG1 :: UINT8
  SCI0_rx :: "UINT8 list"
  history :: "event list"

definition log_event :: "event \<Rightarrow> state \<Rightarrow> state" where
  "log_event e s = s\<lparr>history := history s @ [e]\<rparr>"

subsection \<open>Assignments to shared variables and registers\<close>

definition store_capture_values :: "nat \<Rightarrow> UINT16 \<Rightarrow> state \<Rightarrow> state" where
  "store_capture_values k v s =
     log_event (Ev_store_capture_values k v) (s\<lparr>capture_values := (capture_values s)[k := v]\<rparr>)"

definition set_capture_idx :: "UINT16 \<Rightarrow> state \<Rightarrow> state" where
  "set_capture_idx v s = log_event (Ev_set_capture_idx v) (s\<lparr>capture_idx := v\<rparr>)"

definition set_finished_capturing :: "UINT8 \<Rightarrow> state \<Rightarrow> state" where
  "set_finished_capturing v s =
     log_event (Ev_set_finished_capturing v) (s\<lparr>finished_capturing := v\<rparr>)"

definition set_TIE_C1I :: "bool \<Rightarrow> state \<Rightarrow> state" where
  "set_TIE_C1I b s = log_event (Ev_set_TIE_C1I b) (s\<lparr>TIE_C1I := b\<rparr>)"

definition write_TFLG1 :: "UINT8 \<Rightarrow> state \<Rightarrow> state" where
  "write_TFLG1 v s = log_event (Ev_write_TFLG1 v) (s\<lparr>TFLG1 := TFLG1 s AND NOT v\<rparr>)"

subsection \<open>Serial input and output\<close>

definition CRLF :: string where
  "CRLF = [CHR 0x0D, CHR 0x0A]"

definition printf :: "string \<Rightarrow> state \<Rightarrow> state" where
  "printf txt s = log_event (Ev_printf txt) s"

text \<open>
  \<open>GetChar\<close> polls the receiver until a character has arrived. \<open>SCI0_rx\<close> holds the
  characters the operator will send; when there is none the poll never ends, which is
  the result \<open>None\<close>.
\<close>

definition GetChar :: "state \<Rightarrow> (UINT8 \<times> state) option" where
  "GetChar s =
     (case SCI0_rx s of
        [] \<Rightarrow> None
      | c # cs \<Rightarrow> Some (c, log_event (Ev_GetChar c) (s\<lparr>SCI0_rx := cs\<rparr>)))"

text \<open>The text sent to the serial line by the events of a history.\<close>

fun serial_out :: "event list \<Rightarrow> string" where
  "serial_out [] = []"
| "serial_out (Ev_printf txt # es) = txt @ serial_out es"
| "serial_out (e # es) = serial_out es"

text \<open>
  The conversions of \<open>printf\<close>. On this target \<open>int\<close> is 16 bits wide (which is why the
  source casts the bus clock frequency to \<open>UINT32\<close>), so \<open>%d\<close> reads its 16-bit argument
  as a signed number; \<open>%3d\<close> pads the text with blanks on the left to at least three
  characters.
\<close>

definition digit_char :: "nat \<Rightarrow> char" where
  "digit_char d = ''0123456789'' ! d"

fun dec_digits :: "nat \<Rightarrow> string" where
  "dec_digits n =
     (if n < 10 then [digit_char n] else dec_digits (n div 10) @ [digit_char (n mod 10)])"

declare dec_digits.simps [simp del]

definition show_int :: "int \<Rightarrow> string" where
  "show_int k = (if k < 0 then CHR ''-'' # dec_digits (nat (- k)) else dec_digits (nat k))"

definition fmt_d :: "nat \<Rightarrow> UINT16 \<Rightarrow> string" where
  "fmt_d width a =
     (let txt = show_int (sint a) in replicate (width - length txt) CHR '' '' @ txt)"

section \<open>The interrupt handler\<close>

text \<open>
  \<open>OC1_isr\<close> of \<open>main.c\<close>; \<open>TC1\<close> is the value the handler reads from the capture
  register of channel 1.
\<close>

definition OC1_isr :: "UINT16 \<Rightarrow> state \<Rightarrow> state" where
  "OC1_isr TC1 s =
     write_TFLG1 TFLG1_C1F_MASK
       (if capture_idx s < NUM_CAPTURES then
          set_capture_idx (capture_idx s + 1)
            (store_capture_values (unat (capture_idx s)) TC1 s)
        else if capture_idx s = NUM_CAPTURES then
          set_finished_capturing 1 (set_TIE_C1I False s)
        else s)"

text \<open>A sequence of invocations of the handler, one for each captured timer value.\<close>

fun OC1_isr_seq :: "UINT16 list \<Rightarrow> state \<Rightarrow> state" where
  "OC1_isr_seq [] s = s"
| "OC1_isr_seq (TC1 # rest) s = OC1_isr_seq rest (OC1_isr TC1 s)"

section \<open>The histogram\<close>

definition init_buckets :: "state \<Rightarrow> state" where
  "init_buckets s =
     log_event Ev_memset_num_occurances
       (s\<lparr>num_occurances := replicate (unat NUM_BUCKETS) 0\<rparr>)"

text \<open>The body of the loop of \<open>process_values\<close>, at index \<open>i\<close>.\<close>

definition process_step :: "UINT16 list \<Rightarrow> UINT16 \<Rightarrow> UINT16 list \<Rightarrow> UINT16 list" where
  "process_step cv i occ =
     (let compare_idx = cv ! unat i - cv ! unat (i - 1);
          compare_idx = compare_idx - LOW_PERIOD
      in if compare_idx < 100
         then occ[unat compare_idx := occ ! unat compare_idx + 1]
         else occ)"

text \<open>
  The loop \<open>for (i = 1; i < NUM_CAPTURES; ++i)\<close>, from the index \<open>i\<close> on; the bound is
  a parameter, so that the loop can also be run on a buffer of another capacity.
\<close>

function process_loop :: "UINT16 \<Rightarrow> UINT16 \<Rightarrow> UINT16 list \<Rightarrow> UINT16 list \<Rightarrow> UINT16 list" where
  "process_loop i n cv occ =
     (if i < n then process_loop (i + 1) n cv (process_step cv i occ) else occ)"
  by pat_completeness auto
termination
proof (relation "measure (\<lambda>(i, n, cv, occ). unat n - unat i)")
  show "wf (measure (\<lambda>(i, n, cv, occ). unat n - unat i))"
    by simp
next
  fix i n :: UINT16 and cv occ :: "UINT16 list"
  assume "i < n"
  then have "unat i < unat n"
    by (simp add: word_less_nat_alt)
  moreover have "unat n < 2 ^ 16"
    using unsigned_less [of n, where ?'a = nat] by simp
  moreover have "unat (i + 1) = (unat i + 1) mod 2 ^ 16"
    by (simp add: unat_word_ariths)
  ultimately show "((i + 1, n, cv, process_step cv i occ), (i, n, cv, occ))
      \<in> measure (\<lambda>(i, n, cv, occ). unat n - unat i)"
    by simp
qed

declare process_loop.simps [simp del]

definition process_values :: "state \<Rightarrow> state" where
  "process_values s =
     s\<lparr>num_occurances := process_loop 1 NUM_CAPTURES (capture_values s) (num_occurances s)\<rparr>"

text \<open>
  For the proofs about the loop: the number of indices \<open>k\<close> of a list of loop indices
  at which the normalised delta of the samples \<open>k - 1\<close> and \<open>k\<close> is the bucket \<open>j\<close>.
\<close>

definition hits :: "UINT16 list \<Rightarrow> nat list \<Rightarrow> nat \<Rightarrow> nat" where
  "hits cv ks j =
     length (filter (\<lambda>k. cv ! k - cv ! (k - 1) - LOW_PERIOD = of_nat j) ks)"

section \<open>The report\<close>

text \<open>The call \<open>printf("Bucket %3d: %d\r\n", a, b)\<close>.\<close>

definition Bucket_line :: "UINT16 \<Rightarrow> UINT16 \<Rightarrow> string" where
  "Bucket_line a b = ''Bucket '' @ fmt_d 3 a @ '': '' @ fmt_d 0 b @ CRLF"

text \<open>The loop \<open>for (i = 0; i < NUM_BUCKETS; ++i)\<close> of \<open>print_values\<close>, from \<open>i\<close> on.\<close>

function print_loop :: "UINT16 \<Rightarrow> state \<Rightarrow> state" where
  "print_loop i s =
     (if i < NUM_BUCKETS then
        print_loop (i + 1)
          (if num_occurances s ! unat i \<noteq> 0
           then printf (Bucket_line (i + LOW_PERIOD) (num_occurances s ! unat i)) s
           else s)
      else s)"
  by pat_completeness auto
termination
proof (relation "measure (\<lambda>(i, s). unat NUM_BUCKETS - unat i)")
  show "wf (measure (\<lambda>(i, s). unat NUM_BUCKETS - unat i))"
    by simp
next
  fix i :: UINT16 and s :: state
  assume "i < NUM_BUCKETS"
  then have "unat i < 100"
    by (simp add: word_less_nat_alt NUM_BUCKETS_def)
  moreover have "unat (i + 1) = (unat i + 1) mod 2 ^ 16"
    by (simp add: unat_word_ariths)
  ultimately show "((i + 1,
        if num_occurances s ! unat i \<noteq> 0
        then printf (Bucket_line (i + LOW_PERIOD) (num_occurances s ! unat i)) s
        else s), (i, s))
      \<in> measure (\<lambda>(i, s). unat NUM_BUCKETS - unat i)"
    by (simp add: NUM_BUCKETS_def)
qed

declare print_loop.simps [simp del]

definition print_values :: "state \<Rightarrow> state" where
  "print_values s =
     print_loop 0
       (printf (''100 Buckets used; omitting empty buckets.'' @ CRLF)
          (printf (''Finished capturing.'' @ CRLF) s))"

section \<open>The session controller\<close>

text \<open>
  \<open>pre_capture\<close> either returns, or stays in \<open>GetChar\<close> for ever; both results carry the
  state reached.
\<close>

datatype outcome = Returned state | Blocked state

fun outcome_state :: "outcome \<Rightarrow> state" where
  "outcome_state (Returned s) = s"
| "outcome_state (Blocked s) = s"

definition pre_capture :: "state \<Rightarrow> outcome" where
  "pre_capture s =
     (let s = printf (''Strike enter to begin capture.'' @ CRLF) s;
          s = init_buckets s;
          s = set_finished_capturing 0 s;
          s = set_capture_idx 0 s
      in case GetChar s of
           None \<Rightarrow> Blocked s
         | Some (c, s) \<Rightarrow> Returned (set_TIE_C1I True s))"

definition post_capture :: "state \<Rightarrow> state" where
  "post_capture s = print_values (process_values s)"

text \<open>
  The steps that can follow the completion of a round before the next call of
  \<open>pre_capture\<close>: an invocation of the handler, and the histogram and report functions.
\<close>

datatype step =
    Step_OC1_isr UINT16
  | Step_process_values
  | Step_print_values
  | Step_post_capture

fun do_step :: "step \<Rightarrow> state \<Rightarrow> state" where
  "do_step (Step_OC1_isr TC1) s = OC1_isr TC1 s"
| "do_step Step_process_values s = process_values s"
| "do_step Step_print_values s = print_values s"
| "do_step Step_post_capture s = post_capture s"

fun do_steps :: "step list \<Rightarrow> state \<Rightarrow> state" where
  "do_steps [] s = s"
| "do_steps (x # xs) s = do_steps xs (do_step x s)"

text \<open>
  Modelled from the spec: the interrupt controller is not among the sources. The handler
  is "invoked once per qualifying hardware edge while capture is armed": an edge sets the
  flag of channel 1, and the handler runs only when the interrupt source is enabled.
\<close>

definition capture_edge :: "UINT16 \<Rightarrow> state \<Rightarrow> state" where
  "capture_edge TC1 s =
     (let s = s\<lparr>TFLG1 := TFLG1 s OR TFLG1_C1F_MASK\<rparr>
      in if TIE_C1I s then OC1_isr TC1 s else s)"

fun capture_edges :: "UINT16 list \<Rightarrow> state \<Rightarrow> state" where
  "capture_edges [] s = s"
| "capture_edges (TC1 # rest) s = capture_edges rest (capture_edge TC1 s)"

text \<open>The events that a run has added to the history of the state it started from.\<close>

definition new_events :: "state \<Rightarrow> state \<Rightarrow> event list" where
  "new_events s s' = drop (length (history s)) (history s')"

text \<open>
  \<open>occurs_before a b es\<close>: after the first occurrence of \<open>a\<close> in \<open>es\<close> there is an
  occurrence of \<open>b\<close>.
\<close>

fun occurs_before :: "event \<Rightarrow> event \<Rightarrow> event list \<Rightarrow> bool" where
  "occurs_before a b [] = False"
| "occurs_before a b (e # es) = (if e = a then b \<in> set es else occurs_before a b es)"

section \<open>Two states of a round, for examples\<close>

text \<open>
  A full capture buffer that starts with the samples 1000, 2000, 2976 and 5000 and holds
  5000 in every other slot, in the state the handler leaves when the round is complete.
\<close>

definition example_snapshot :: "UINT16 list" where
  "example_snapshot = [1000, 2000, 2976, 5000] @ replicate 996 5000"

definition example_state :: state where
  "example_state =
     \<lparr>num_occurances = replicate 100 0, capture_values = example_snapshot,
      capture_idx = 1000, finished_capturing = 1, TIE_C1I = False, TFLG1 = 0,
      SCI0_rx = [], history = []\<rparr>"

text \<open>
  The state in which \<open>pre_capture\<close> hands over to the handler: cursor 0, flag false,
  interrupt source enabled; the buffer still holds the samples of the round before.
\<close>

definition armed_state :: state where
  "armed_state =
     \<lparr>num_occurances = replicate 100 0, capture_values = example_snapshot,
      capture_idx = 0, finished_capturing = 0, TIE_C1I = True, TFLG1 = 0,
      SCI0_rx = [], history = []\<rparr>"

section \<open>The loop of the histogram as a fold\<close>

lemma unat_succ_less: "(i::UINT16) < n \<Longrightarrow> unat (i + 1) = Suc (unat i)"
proof -
  assume "i < n"
  then have "unat i < unat n"
    by (simp add: word_less_nat_alt)
  moreover have "unat n < 2 ^ 16"
    using unsigned_less [of n, where ?'a = nat] by simp
  moreover have "unat (i + 1) = (unat i + 1) mod 2 ^ 16"
    by (simp add: unat_word_ariths)
  ultimately show ?thesis by simp
qed

lemma process_loop_fold:
  "process_loop i n cv occ = fold (\<lambda>k. process_step cv (of_nat k)) [unat i..<unat n] occ"
proof (induction i n cv occ rule: process_loop.induct)
  case (1 i n cv occ)
  show ?case
  proof (cases "i < n")
    case True
    then have lt: "unat i < unat n"
      by (simp add: word_less_nat_alt)
    have "process_loop i n cv occ = process_loop (i + 1) n cv (process_step cv i occ)"
      using True by (subst process_loop.simps) simp
    also have "\<dots> = fold (\<lambda>k. process_step cv (of_nat k)) [unat (i + 1)..<unat n] (process_step cv i occ)"
      using "1.IH" True by simp
    also have "\<dots> = fold (\<lambda>k. process_step cv (of_nat k)) [unat i..<unat n] occ"
      using lt by (simp add: unat_succ_less [OF True] upt_conv_Cons)
    finally show ?thesis .
  next
    case False
    then have "\<not> unat i < unat n"
      by (simp add: word_less_nat_alt)
    then show ?thesis
      using False by (subst process_loop.simps) simp
  qed
qed

subsection \<open>One step of the loop\<close>

lemma unat_of_nat16: "k < 65536 \<Longrightarrow> unat (of_nat k :: UINT16) = k"
  by (simp add: unat_of_nat)

lemma unat_of_nat16_pred: "0 < k \<Longrightarrow> k < 65536 \<Longrightarrow> unat (of_nat k - 1 :: UINT16) = k - 1"
proof -
  assume a: "0 < k" "k < 65536"
  then have u: "unat (of_nat k :: UINT16) = k"
    by (simp add: unat_of_nat)
  then have "(of_nat k :: UINT16) \<noteq> 0"
    using a by auto
  then have "unat (of_nat k - 1 :: UINT16) = unat (of_nat k :: UINT16) - 1"
    by (rule unat_minus_one)
  then show ?thesis
    by (simp only: u)
qed

lemma process_step_of_nat:
  assumes "0 < k" "k < 65536"
  shows "process_step cv (of_nat k) occ =
    (if cv ! k - cv ! (k - 1) - LOW_PERIOD < 100
     then occ[unat (cv ! k - cv ! (k - 1) - LOW_PERIOD) :=
              occ ! unat (cv ! k - cv ! (k - 1) - LOW_PERIOD) + 1]
     else occ)"
  using assms by (simp add: process_step_def unat_of_nat16 unat_of_nat16_pred Let_def)

lemma length_process_step: "length (process_step cv i occ) = length occ"
  by (simp add: process_step_def Let_def)

lemma length_fold_process_step:
  "length (fold (\<lambda>k. process_step cv (of_nat k)) ks occ) = length occ"
  by (induction ks arbitrary: occ) (simp_all add: length_process_step)

lemma word_lt_100_iff:
  "j < 100 \<Longrightarrow> (c = (of_nat j :: UINT16)) = (c < 100 \<and> unat c = j)"
proof -
  assume j: "j < 100"
  show ?thesis
  proof
    assume "c = of_nat j"
    then have "unat c = j"
      using j by (simp add: unat_of_nat)
    then show "c < 100 \<and> unat c = j"
      using j by (simp add: word_less_nat_alt)
  next
    assume "c < 100 \<and> unat c = j"
    then have "of_nat (unat c) = (of_nat j :: UINT16)"
      by simp
    then show "c = of_nat j"
      by simp
  qed
qed

lemma process_step_nth:
  assumes "0 < k" "k < 65536" "j < 100" "j < length occ"
  shows "process_step cv (of_nat k) occ ! j =
    occ ! j + (if cv ! k - cv ! (k - 1) - LOW_PERIOD = of_nat j then 1 else 0)"
proof (cases "cv ! k - cv ! (k - 1) - LOW_PERIOD = of_nat j")
  case True
  then have "cv ! k - cv ! (k - 1) - LOW_PERIOD < 100"
    and "unat (cv ! k - cv ! (k - 1) - LOW_PERIOD) = j"
    using word_lt_100_iff [OF assms(3)] by simp_all
  then show ?thesis
    using assms True by (simp add: process_step_of_nat)
next
  case False
  then have "\<not> (cv ! k - cv ! (k - 1) - LOW_PERIOD < 100
      \<and> unat (cv ! k - cv ! (k - 1) - LOW_PERIOD) = j)"
    using word_lt_100_iff [OF assms(3)] by simp
  then show ?thesis
    using assms False by (auto simp add: process_step_of_nat)
qed

lemma fold_process_step_nth:
  assumes "\<forall>k\<in>set ks. 0 < k \<and> k < 65536" "j < 100" "j < length occ"
  shows "fold (\<lambda>k. process_step cv (of_nat k)) ks occ ! j = occ ! j + of_nat (hits cv ks j)"
  using assms
proof (induction ks arbitrary: occ)
  case Nil
  then show ?case by (simp add: hits_def)
next
  case (Cons k ks)
  have k: "0 < k" "k < 65536"
    using Cons.prems(1) by simp_all
  have "fold (\<lambda>k. process_step cv (of_nat k)) (k # ks) occ ! j =
      fold (\<lambda>k. process_step cv (of_nat k)) ks (process_step cv (of_nat k) occ) ! j"
    by simp
  also have "\<dots> = process_step cv (of_nat k) occ ! j + of_nat (hits cv ks j)"
    using Cons.prems by (intro Cons.IH) (simp_all add: length_process_step)
  also have "\<dots> = occ ! j + of_nat (hits cv (k # ks) j)"
    using k Cons.prems(2,3) by (simp add: process_step_nth hits_def)
  finally show ?case .
qed

lemma hits_le: "hits cv ks j \<le> length ks"
  by (simp add: hits_def)

lemma unat_succ_le: "unat ((x::UINT16) + 1) \<le> unat x + 1"
  by (simp add: unat_word_ariths)

lemma sum_process_step:
  "sum_list (map unat (process_step cv i occ)) \<le> sum_list (map unat occ) + 1"
proof -
  have upd: "sum_list (map unat (occ[c := occ ! c + 1])) \<le> sum_list (map unat occ) + 1" for c
  proof (cases "c < length occ")
    case True
    have "sum_list (map unat (occ[c := occ ! c + 1])) =
        sum_list (map unat occ) + unat (occ ! c + 1) - unat (occ ! c)"
      using True by (simp add: map_update sum_list_update)
    then show ?thesis
      using unat_succ_le [of "occ ! c"] by simp
  next
    case False
    then show ?thesis by (simp add: list_update_beyond)
  qed
  show ?thesis
    using upd by (simp add: process_step_def Let_def)
qed

lemma sum_fold_process_step:
  "sum_list (map unat (fold (\<lambda>k. process_step cv (of_nat k)) ks occ))
     \<le> sum_list (map unat occ) + length ks"
proof (induction ks arbitrary: occ)
  case Nil
  then show ?case by simp
next
  case (Cons k ks)
  have "sum_list (map unat (fold (\<lambda>k. process_step cv (of_nat k)) (k # ks) occ))
      \<le> sum_list (map unat (process_step cv (of_nat k) occ)) + length ks"
    using Cons.IH [of "process_step cv (of_nat k) occ"] by simp
  also have "\<dots> \<le> sum_list (map unat occ) + 1 + length ks"
    using sum_process_step [of cv "of_nat k" occ] by simp
  finally show ?case by simp
qed

subsection \<open>Normalising a delta\<close>

lemma unat16_less: "unat (x::UINT16) < 65536"
  using unsigned_less [of x, where ?'a = nat] by simp

lemma normalise_in_range:
  "(d - LOW_PERIOD < 100) =
     (unat LOW_PERIOD \<le> unat d \<and> unat d < unat LOW_PERIOD + unat NUM_BUCKETS)"
proof -
  have "unat (d - LOW_PERIOD) =
      (if 950 \<le> unat d then unat d - 950 else unat d + 65536 - 950)"
    by (simp add: unat_sub_if_size LOW_PERIOD_def word_size)
  then show ?thesis
    using unat16_less [of d]
    by (auto simp add: word_less_nat_alt LOW_PERIOD_def NUM_BUCKETS_def)
qed

lemma normalise_index:
  "unat LOW_PERIOD \<le> unat d \<Longrightarrow> unat (d - LOW_PERIOD) = unat d - unat LOW_PERIOD"
  by (simp add: unat_sub_if_size)

subsection \<open>The whole loop\<close>

lemma process_values_fold:
  "process_values s =
     s\<lparr>num_occurances :=
         fold (\<lambda>k. process_step (capture_values s) (of_nat k)) [1..<1000] (num_occurances s)\<rparr>"
  by (simp add: process_values_def process_loop_fold NUM_CAPTURES_def)

lemma upt_bounds: "\<forall>k\<in>set [1..<n]. 0 < k \<and> k < 65536" if "n \<le> 65536"
  using that by auto

lemma unat_succ_exact: "unat (x::UINT16) < 65535 \<Longrightarrow> unat (x + 1) = unat x + 1"
  by (simp add: unat_word_ariths)

lemma fold_from_zero_nth:
  assumes "n \<le> 65536" "j < 100"
  shows "fold (\<lambda>k. process_step cv (of_nat k)) [1..<n] (replicate 100 0) ! j
    = of_nat (hits cv [1..<n] j)"
  using fold_process_step_nth [OF upt_bounds [OF assms(1)] assms(2), of "replicate 100 0" cv]
    assms(2) by simp

lemma process_loop_snoc:
  assumes "1 \<le> i" "i < n"
  shows "process_loop 1 (i + 1) cv occ = process_step cv i (process_loop 1 i cv occ)"
proof -
  have "1 \<le> unat i"
    using assms(1) by (simp add: word_le_nat_alt)
  then have "[1..<Suc (unat i)] = [1..<unat i] @ [unat i]"
    by simp
  then show ?thesis
    by (simp add: process_loop_fold unat_succ_less [OF assms(2)])
qed

subsection \<open>The example round\<close>

lemma fold_process_step_idle:
  assumes "\<forall>k\<in>set ks. 0 < k \<and> k < 65536 \<and> cv ! k = cv ! (k - 1)"
  shows "fold (\<lambda>k. process_step cv (of_nat k)) ks occ = occ"
  using assms
  by (induction ks arbitrary: occ) (simp_all add: process_step_of_nat LOW_PERIOD_def)

lemma example_snapshot_tail:
  "\<forall>k\<in>set [4..<1000]. 0 < k \<and> k < 65536 \<and> example_snapshot ! k = example_snapshot ! (k - 1)"
proof
  fix k assume "k \<in> set [4..<1000]"
  then have k: "4 \<le> k" "k < 1000"
    unfolding set_upt by simp_all
  have "example_snapshot ! k' = 5000" if "3 \<le> k'" "k' < 1000" for k'
  proof (cases "k' = 3")
    case True
    then show ?thesis by (simp add: example_snapshot_def)
  next
    case False
    with that have "4 \<le> k'" by simp
    then show ?thesis
      using that by (simp add: example_snapshot_def nth_append)
  qed
  from this [of k] this [of "k - 1"] k
  show "0 < k \<and> k < 65536 \<and> example_snapshot ! k = example_snapshot ! (k - 1)"
    by simp
qed

lemma example_snapshot_head:
  "example_snapshot ! 0 = 1000" "example_snapshot ! Suc 0 = 2000"
  "example_snapshot ! 2 = 2976" "example_snapshot ! 3 = 5000"
  by (simp_all add: example_snapshot_def)

lemma upt_1_1000: "[1..<1000] = [1, 2, 3] @ [4..<1000]"
proof -
  have "[1..<1000] = [1..<4] @ [4..<1000]"
    using upt_add_eq_append [of 1 4 996] by simp
  moreover have "[1..<4] = [1, 2, 3]"
    by (simp add: upt_rec)
  ultimately show ?thesis by simp
qed

lemma process_example_snapshot:
  "process_loop 1 NUM_CAPTURES example_snapshot occ =
     fold (\<lambda>k. process_step example_snapshot (of_nat k)) [1, 2, 3] occ"
proof -
  have u: "unat (1::UINT16) = 1" "unat (1000::UINT16) = 1000"
    by simp_all
  have "process_loop 1 NUM_CAPTURES example_snapshot occ =
      fold (\<lambda>k. process_step example_snapshot (of_nat k)) ([1, 2, 3] @ [4..<1000]) occ"
    by (simp only: process_loop_fold NUM_CAPTURES_def u upt_1_1000)
  also have "\<dots> = fold (\<lambda>k. process_step example_snapshot (of_nat k)) [4..<1000]
      (fold (\<lambda>k. process_step example_snapshot (of_nat k)) [1, 2, 3] occ)"
    by (simp only: fold_append comp_apply)
  also have "\<dots> = fold (\<lambda>k. process_step example_snapshot (of_nat k)) [1, 2, 3] occ"
    by (rule fold_process_step_idle [OF example_snapshot_tail])
  finally show ?thesis .
qed

lemma process_example_once:
  "process_loop 1 NUM_CAPTURES example_snapshot (replicate 100 0) = (replicate 100 0)[50 := 1, 26 := 1]"
  by (simp add: process_example_snapshot process_step_def example_snapshot_head LOW_PERIOD_def)

section \<open>Properties of the histogram processor\<close>

text \<open>
  Claim C1. One run of the histogram processor on the samples 1000, 2000, 2976, 5000,
  with \<open>LOW_PERIOD = 950\<close> and 100 buckets, from the all-zero table: bucket 50 and
  bucket 26 hold 1, every other bucket holds 0, and the counts add up to 2 (the third
  delta, 2024, is counted nowhere). This holds for the loop run on a buffer of these four samples, and
  for \<open>process_values\<close> on the full buffer of \<open>example_state\<close>, which starts with them.
\<close>

theorem process_values_example:
  "LOW_PERIOD = 950 \<and> NUM_BUCKETS = 100
   \<and> process_loop 1 4 [1000, 2000, 2976, 5000] (replicate 100 0)
       = (replicate 100 0)[50 := 1, 26 := 1]
   \<and> sum_list (map unat (process_loop 1 4 [1000, 2000, 2976, 5000] (replicate 100 0))) = 2
   \<and> num_occurances (process_values example_state) = (replicate 100 0)[50 := 1, 26 := 1]
   \<and> sum_list (map unat (num_occurances (process_values example_state))) = 2"
  by (simp add: process_loop.simps [of _ 4] process_step_def LOW_PERIOD_def NUM_BUCKETS_def
      map_update sum_list_update process_values_def example_state_def process_example_once)

text \<open>
  One step of the loop changes a bucket if and only if the wrapping delta of its pair of
  samples is in the range of the buckets, and then exactly the bucket of that delta.
\<close>

lemma process_step_in_range:
  assumes "length occ = unat NUM_BUCKETS"
  shows "(let delta = cv ! unat i - cv ! unat (i - 1);
              in_range = (unat LOW_PERIOD \<le> unat delta
                            \<and> unat delta < unat LOW_PERIOD + unat NUM_BUCKETS);
              occ' = process_step cv i occ
          in {k. k < unat NUM_BUCKETS \<and> occ' ! k \<noteq> occ ! k} =
               (if in_range then {unat delta - unat LOW_PERIOD} else {})
           \<and> (in_range \<longrightarrow>
                occ' ! (unat delta - unat LOW_PERIOD) = occ ! (unat delta - unat LOW_PERIOD) + 1)
           \<and> (unat delta < unat LOW_PERIOD \<longrightarrow> occ' = occ)
           \<and> length occ' = length occ
           \<and> int (unat delta) = (int (unat (cv ! unat i)) - int (unat (cv ! unat (i - 1)))) mod 2 ^ 16)"
proof -
  define delta where "delta = cv ! unat i - cv ! unat (i - 1)"
  define m where "m = unat delta - unat LOW_PERIOD"
  have step: "process_step cv i occ =
      (if unat LOW_PERIOD \<le> unat delta \<and> unat delta < unat LOW_PERIOD + unat NUM_BUCKETS
       then occ[m := occ ! m + 1] else occ)"
    by (simp add: process_step_def Let_def normalise_in_range normalise_index
        flip: delta_def m_def)
  have m: "m < length occ"
    if "unat LOW_PERIOD \<le> unat delta" "unat delta < unat LOW_PERIOD + unat NUM_BUCKETS"
    using that assms by (simp add: m_def)
  have changed: "{k. k < unat NUM_BUCKETS \<and> occ[m := occ ! m + 1] ! k \<noteq> occ ! k} = {m}"
    if "m < length occ"
    using that assms by (auto simp add: nth_list_update)
  have wrap: "int (unat delta) =
      (int (unat (cv ! unat i)) - int (unat (cv ! unat (i - 1)))) mod 2 ^ 16"
    by (simp add: delta_def uint_word_ariths flip: uint_nat)
  show ?thesis
    unfolding Let_def
    using m changed wrap
    by (simp add: step length_process_step flip: delta_def m_def)
qed

lemma normalised_eq_bucket:
  assumes "j < 100"
  shows "(d - LOW_PERIOD = (of_nat j :: UINT16)) =
    (unat LOW_PERIOD \<le> unat d \<and> unat d < unat LOW_PERIOD + unat NUM_BUCKETS
      \<and> unat d - unat LOW_PERIOD = j)"
proof (cases "unat LOW_PERIOD \<le> unat d \<and> unat d < unat LOW_PERIOD + unat NUM_BUCKETS")
  case True
  then have "d - LOW_PERIOD < 100" and "unat (d - LOW_PERIOD) = unat d - unat LOW_PERIOD"
    by (simp_all add: normalise_in_range normalise_index)
  then show ?thesis
    using True word_lt_100_iff [OF assms, of "d - LOW_PERIOD"] by simp
next
  case False
  then have "\<not> d - LOW_PERIOD < 100"
    by (simp add: normalise_in_range)
  then show ?thesis
    using False word_lt_100_iff [OF assms, of "d - LOW_PERIOD"] by auto
qed

lemma hits_in_range:
  assumes "j < 100"
  shows "hits cv ks j =
    length (filter (\<lambda>k. unat LOW_PERIOD \<le> unat (cv ! k - cv ! (k - 1))
        \<and> unat (cv ! k - cv ! (k - 1)) < unat LOW_PERIOD + unat NUM_BUCKETS
        \<and> unat (cv ! k - cv ! (k - 1)) - unat LOW_PERIOD = j) ks)"
  unfolding hits_def normalised_eq_bucket [OF assms] ..

text \<open>
  Claim C5. The histogram processor runs the body of its loop once for every adjacent
  pair of samples of the snapshot, at the indices 1 to 999. For a pair, with \<open>delta\<close> its
  16-bit wrapping difference, the body changes a bucket if and only if
  \<open>LOW_PERIOD \<le> delta < LOW_PERIOD + NUM_BUCKETS\<close>; it then changes exactly the bucket
  \<open>delta - LOW_PERIOD\<close>, by adding one to it, and a delta below \<open>LOW_PERIOD\<close> leaves the
  table as it is. So one run adds to every bucket \<open>j\<close> the number of adjacent pairs whose
  delta is in the range and has \<open>delta - LOW_PERIOD = j\<close>, and from the reset table the
  counter of \<open>j\<close> is that number.
\<close>

theorem process_values_counts_iff_in_range:
  "(length occ = unat NUM_BUCKETS \<longrightarrow>
      (let delta = cv ! unat i - cv ! unat (i - 1);
           in_range = (unat LOW_PERIOD \<le> unat delta
                         \<and> unat delta < unat LOW_PERIOD + unat NUM_BUCKETS);
           occ' = process_step cv i occ
       in {k. k < unat NUM_BUCKETS \<and> occ' ! k \<noteq> occ ! k} =
            (if in_range then {unat delta - unat LOW_PERIOD} else {})
        \<and> (in_range \<longrightarrow>
             occ' ! (unat delta - unat LOW_PERIOD) = occ ! (unat delta - unat LOW_PERIOD) + 1)
        \<and> (unat delta < unat LOW_PERIOD \<longrightarrow> occ' = occ)
        \<and> length occ' = length occ
        \<and> int (unat delta) = (int (unat (cv ! unat i)) - int (unat (cv ! unat (i - 1)))) mod 2 ^ 16))
   \<and> process_values s =
       s\<lparr>num_occurances :=
           fold (\<lambda>k. process_step (capture_values s) (of_nat k)) [1..<unat NUM_CAPTURES]
             (num_occurances s)\<rparr>
   \<and> (length (num_occurances s) = unat NUM_BUCKETS \<longrightarrow>
        (\<forall>j < unat NUM_BUCKETS.
           num_occurances (process_values s) ! j =
             num_occurances s ! j +
             of_nat (length (filter
               (\<lambda>k. let delta = capture_values s ! k - capture_values s ! (k - 1)
                    in unat LOW_PERIOD \<le> unat delta
                       \<and> unat delta < unat LOW_PERIOD + unat NUM_BUCKETS
                       \<and> unat delta - unat LOW_PERIOD = j)
               [1..<unat NUM_CAPTURES]))))
   \<and> (\<forall>j < unat NUM_BUCKETS.
        unat (num_occurances (process_values (init_buckets s)) ! j) =
          length (filter
            (\<lambda>k. let delta = capture_values s ! k - capture_values s ! (k - 1)
                 in unat LOW_PERIOD \<le> unat delta
                    \<and> unat delta < unat LOW_PERIOD + unat NUM_BUCKETS
                    \<and> unat delta - unat LOW_PERIOD = j)
            [1..<unat NUM_CAPTURES]))"
proof -
  define cv' where "cv' = capture_values s"
  have a: "length occ = unat NUM_BUCKETS \<longrightarrow>
      (let delta = cv ! unat i - cv ! unat (i - 1);
           in_range = (unat LOW_PERIOD \<le> unat delta
                         \<and> unat delta < unat LOW_PERIOD + unat NUM_BUCKETS);
           occ' = process_step cv i occ
       in {k. k < unat NUM_BUCKETS \<and> occ' ! k \<noteq> occ ! k} =
            (if in_range then {unat delta - unat LOW_PERIOD} else {})
        \<and> (in_range \<longrightarrow>
             occ' ! (unat delta - unat LOW_PERIOD) = occ ! (unat delta - unat LOW_PERIOD) + 1)
        \<and> (unat delta < unat LOW_PERIOD \<longrightarrow> occ' = occ)
        \<and> length occ' = length occ
        \<and> int (unat delta) = (int (unat (cv ! unat i)) - int (unat (cv ! unat (i - 1)))) mod 2 ^ 16)"
    using process_step_in_range [of occ cv i] by blast
  have b: "process_values s =
       s\<lparr>num_occurances :=
           fold (\<lambda>k. process_step (capture_values s) (of_nat k)) [1..<unat NUM_CAPTURES]
             (num_occurances s)\<rparr>"
    by (simp add: process_values_fold NUM_CAPTURES_def)
  have c: "num_occurances (process_values s) ! j =
             num_occurances s ! j +
             of_nat (length (filter
               (\<lambda>k. unat LOW_PERIOD \<le> unat (cv' ! k - cv' ! (k - 1))
                       \<and> unat (cv' ! k - cv' ! (k - 1)) < unat LOW_PERIOD + unat NUM_BUCKETS
                       \<and> unat (cv' ! k - cv' ! (k - 1)) - unat LOW_PERIOD = j)
               [1..<unat NUM_CAPTURES]))"
    if "length (num_occurances s) = unat NUM_BUCKETS" "j < unat NUM_BUCKETS" for j
  proof -
    have j: "j < 100" "j < length (num_occurances s)"
      using that by (simp_all add: NUM_BUCKETS_def)
    have "fold (\<lambda>k. process_step cv' (of_nat k)) [1..<1000] (num_occurances s) ! j
        = num_occurances s ! j + of_nat (hits cv' [1..<1000] j)"
      using upt_bounds [of 1000] j by (intro fold_process_step_nth) simp_all
    then show ?thesis
      by (simp add: process_values_fold hits_in_range [OF j(1)] NUM_CAPTURES_def cv'_def)
  qed
  have d: "unat (num_occurances (process_values (init_buckets s)) ! j) =
          length (filter
            (\<lambda>k. unat LOW_PERIOD \<le> unat (cv' ! k - cv' ! (k - 1))
                       \<and> unat (cv' ! k - cv' ! (k - 1)) < unat LOW_PERIOD + unat NUM_BUCKETS
                       \<and> unat (cv' ! k - cv' ! (k - 1)) - unat LOW_PERIOD = j)
            [1..<unat NUM_CAPTURES])"
    if "j < unat NUM_BUCKETS" for j
  proof -
    have j: "j < 100"
      using that by (simp add: NUM_BUCKETS_def)
    have h: "hits cv' [1..<1000] j \<le> 999"
      using hits_le [of cv' "[1..<1000]" j] by simp
    have "num_occurances (process_values (init_buckets s)) ! j = of_nat (hits cv' [1..<1000] j)"
      using fold_from_zero_nth [of 1000 j cv'] j
      by (simp add: process_values_fold init_buckets_def log_event_def NUM_BUCKETS_def cv'_def)
    then have "unat (num_occurances (process_values (init_buckets s)) ! j) = hits cv' [1..<1000] j"
      using h by (simp add: unat_of_nat16)
    then show ?thesis
      by (simp add: hits_in_range [OF j] NUM_CAPTURES_def)
  qed
  show ?thesis
    unfolding Let_def
    using a [unfolded Let_def] b c d by (simp add: cv'_def)
qed

theorem process_values_counts_iff_in_range_witness:
  "length (replicate 100 (0::UINT16)) = unat NUM_BUCKETS
   \<and> {k. k < unat NUM_BUCKETS
          \<and> process_step [1000, 2000, 2976, 5000] 1 (replicate 100 0) ! k
              \<noteq> (replicate 100 0 :: UINT16 list) ! k} = {50}
   \<and> process_step [1000, 2000, 2976, 5000] 1 (replicate 100 0) ! 50 = 1
   \<and> {k. k < unat NUM_BUCKETS
          \<and> process_step [1000, 2000, 2976, 5000] 3 (replicate 100 0) ! k
              \<noteq> (replicate 100 0 :: UINT16 list) ! k} = {}
   \<and> process_step [1000, 1949] 1 (replicate 100 0) = replicate 100 0
   \<and> 50 < unat NUM_BUCKETS
   \<and> unat (num_occurances (process_values (init_buckets example_state)) ! 50) = 1
   \<and> length (filter
        (\<lambda>k. let delta = capture_values example_state ! k - capture_values example_state ! (k - 1)
             in unat LOW_PERIOD \<le> unat delta
                \<and> unat delta < unat LOW_PERIOD + unat NUM_BUCKETS
                \<and> unat delta - unat LOW_PERIOD = 50)
        [1..<unat NUM_CAPTURES]) = 1"
proof -
  have len: "length (replicate 100 (0::UINT16)) = unat NUM_BUCKETS"
    and j: "50 < unat NUM_BUCKETS"
    by (simp_all add: NUM_BUCKETS_def)
  have o: "num_occurances (process_values (init_buckets example_state))
      = (replicate 100 0)[50 := 1, 26 := 1]"
    by (simp add: process_values_def init_buckets_def log_event_def example_state_def
        NUM_BUCKETS_def process_example_once)
  have one: "unat (num_occurances (process_values (init_buckets example_state)) ! 50) = 1"
    by (simp add: o)
  have step: "{k. k < unat NUM_BUCKETS
          \<and> process_step [1000, 2000, 2976, 5000] 1 (replicate 100 0) ! k
              \<noteq> (replicate 100 0 :: UINT16 list) ! k} = {50}
   \<and> process_step [1000, 2000, 2976, 5000] 1 (replicate 100 0) ! 50 = 1
   \<and> {k. k < unat NUM_BUCKETS
          \<and> process_step [1000, 2000, 2976, 5000] 3 (replicate 100 0) ! k
              \<noteq> (replicate 100 0 :: UINT16 list) ! k} = {}
   \<and> process_step [1000, 1949] 1 (replicate 100 0) = replicate 100 0"
    using len process_values_counts_iff_in_range [of "replicate 100 0" "[1000, 2000, 2976, 5000]" 1 example_state]
      process_values_counts_iff_in_range [of "replicate 100 0" "[1000, 2000, 2976, 5000]" 3 example_state]
      process_values_counts_iff_in_range [of "replicate 100 0" "[1000, 1949]" 1 example_state]
    by (simp add: Let_def LOW_PERIOD_def NUM_BUCKETS_def)
  from process_values_counts_iff_in_range [of "replicate 100 0" "[1000, 1949]" 1 example_state]
  have "\<forall>j < unat NUM_BUCKETS.
        unat (num_occurances (process_values (init_buckets example_state)) ! j) =
          length (filter
            (\<lambda>k. let delta = capture_values example_state ! k - capture_values example_state ! (k - 1)
                 in unat LOW_PERIOD \<le> unat delta
                    \<and> unat delta < unat LOW_PERIOD + unat NUM_BUCKETS
                    \<and> unat delta - unat LOW_PERIOD = j)
            [1..<unat NUM_CAPTURES])"
    by blast
  from this [THEN spec, of 50] j one
  have "length (filter
        (\<lambda>k. let delta = capture_values example_state ! k - capture_values example_state ! (k - 1)
             in unat LOW_PERIOD \<le> unat delta
                \<and> unat delta < unat LOW_PERIOD + unat NUM_BUCKETS
                \<and> unat delta - unat LOW_PERIOD = 50)
        [1..<unat NUM_CAPTURES]) = 1"
    by simp
  with len j one step show ?thesis
    by blast
qed

text \<open>
  Claim C7. For every snapshot, two runs of the histogram processor in a row on the
  table reset by \<open>init_buckets\<close> leave in every bucket exactly twice the count that one
  run leaves there.
\<close>

theorem process_values_twice_doubles:
  "(let once = num_occurances (process_values (init_buckets s));
        twice = num_occurances (process_values (process_values (init_buckets s)))
    in length once = unat NUM_BUCKETS \<and> length twice = unat NUM_BUCKETS
       \<and> (\<forall>j < unat NUM_BUCKETS. unat (twice ! j) = 2 * unat (once ! j)))"
proof -
  define cv where "cv = capture_values s"
  define once where "once = fold (\<lambda>k. process_step cv (of_nat k)) [1..<1000] (replicate 100 0)"
  define twice where "twice = fold (\<lambda>k. process_step cv (of_nat k)) [1..<1000] once"
  have o: "num_occurances (process_values (init_buckets s)) = once"
    by (simp add: process_values_fold init_buckets_def log_event_def NUM_BUCKETS_def
        once_def cv_def)
  have t: "num_occurances (process_values (process_values (init_buckets s))) = twice"
    by (simp add: process_values_fold init_buckets_def log_event_def NUM_BUCKETS_def
        once_def twice_def cv_def)
  have len_once: "length once = 100"
    by (simp add: once_def length_fold_process_step)
  have len_twice: "length twice = 100"
    by (simp add: twice_def length_fold_process_step len_once)
  have dbl: "unat (twice ! j) = 2 * unat (once ! j)" if j: "j < 100" for j
  proof -
    define h where "h = hits cv [1..<1000] j"
    have h: "h \<le> 999"
      using hits_le [of cv "[1..<1000]" j] by (simp add: h_def)
    have once_j: "once ! j = of_nat h"
      using fold_from_zero_nth [of 1000 j cv] j by (simp add: once_def h_def)
    have "twice ! j = once ! j + of_nat h"
      unfolding twice_def h_def
      by (rule fold_process_step_nth) (use j len_once in auto)
    then have "twice ! j = of_nat (2 * h)"
      by (simp add: once_j)
    then have "unat (twice ! j) = 2 * h"
      using h by (simp only: unat_of_nat16)
    moreover have "unat (once ! j) = h"
      using h by (simp add: once_j unat_of_nat16)
    ultimately show ?thesis by simp
  qed
  show ?thesis
    unfolding Let_def o t
    using dbl by (simp add: len_once len_twice NUM_BUCKETS_def)
qed

theorem process_values_twice_doubles_witness:
  "50 < unat NUM_BUCKETS
   \<and> unat (num_occurances (process_values (init_buckets example_state)) ! 50) = 1
   \<and> unat (num_occurances (process_values (process_values (init_buckets example_state))) ! 50) = 2"
proof -
  have o: "num_occurances (process_values (init_buckets example_state)) = (replicate 100 0)[50 := 1, 26 := 1]"
    by (simp add: process_values_def init_buckets_def log_event_def example_state_def
        NUM_BUCKETS_def process_example_once)
  have j: "50 < unat NUM_BUCKETS"
    by (simp add: NUM_BUCKETS_def)
  show ?thesis
    using process_values_twice_doubles [of example_state] j by (simp add: Let_def o)
qed

text \<open>
  Claim C10. One run of the histogram processor executes the body of its loop at the
  indices 1 to 999, that is 999 times; from the all-zero table the counts add up to at
  most 999; and at every index \<open>i\<close> of the run every counter is below \<open>i\<close>, so that the
  increment of a counter adds exactly one and does not wrap around.
\<close>

theorem process_values_count_bound:
  "process_values s =
     s\<lparr>num_occurances :=
         fold (\<lambda>k. process_step (capture_values s) (of_nat k)) [1..<unat NUM_CAPTURES]
           (num_occurances s)\<rparr>
   \<and> length [1..<unat NUM_CAPTURES] = 999
   \<and> sum_list (map unat (num_occurances (process_values (init_buckets s)))) \<le> 999
   \<and> (\<forall>i. 1 \<le> i \<and> i < NUM_CAPTURES \<longrightarrow>
        (let occ = process_loop 1 i (capture_values s) (replicate (unat NUM_BUCKETS) 0)
         in process_loop 1 (i + 1) (capture_values s) (replicate (unat NUM_BUCKETS) 0)
              = process_step (capture_values s) i occ
            \<and> (\<forall>j < unat NUM_BUCKETS.
                  unat (occ ! j) < unat i \<and> unat (occ ! j + 1) = unat (occ ! j) + 1)))"
proof -
  define cv where "cv = capture_values s"
  have a: "process_values s =
     s\<lparr>num_occurances :=
         fold (\<lambda>k. process_step (capture_values s) (of_nat k)) [1..<unat NUM_CAPTURES]
           (num_occurances s)\<rparr>"
    by (simp add: process_values_fold NUM_CAPTURES_def)
  have b: "length [1..<unat NUM_CAPTURES] = 999"
    by (simp add: NUM_CAPTURES_def)
  have c: "sum_list (map unat (num_occurances (process_values (init_buckets s)))) \<le> 999"
    using sum_fold_process_step [of cv "[1..<1000]" "replicate 100 0"]
    by (simp add: process_values_fold init_buckets_def log_event_def NUM_BUCKETS_def cv_def
        sum_list_replicate)
  have d: "process_loop 1 (i + 1) cv (replicate (unat NUM_BUCKETS) 0)
              = process_step cv i (process_loop 1 i cv (replicate (unat NUM_BUCKETS) 0))
      \<and> (\<forall>j < unat NUM_BUCKETS.
            unat (process_loop 1 i cv (replicate (unat NUM_BUCKETS) 0) ! j) < unat i
          \<and> unat (process_loop 1 i cv (replicate (unat NUM_BUCKETS) 0) ! j + 1)
              = unat (process_loop 1 i cv (replicate (unat NUM_BUCKETS) 0) ! j) + 1)"
    if i: "1 \<le> i" "i < NUM_CAPTURES" for i
  proof -
    have i1: "1 \<le> unat i" and i2: "unat i < 1000"
      using i by (simp_all add: word_le_nat_alt word_less_nat_alt NUM_CAPTURES_def)
    have bound: "unat (process_loop 1 i cv (replicate 100 0) ! j) < unat i" if "j < 100" for j
    proof -
      have "process_loop 1 i cv (replicate 100 0) ! j = of_nat (hits cv [1..<unat i] j)"
        using fold_from_zero_nth [of "unat i" j cv] that i2 by (simp add: process_loop_fold)
      moreover have "hits cv [1..<unat i] j < unat i"
        using hits_le [of cv "[1..<unat i]" j] i1 by simp
      ultimately show ?thesis
        using i2 by (simp add: unat_of_nat16)
    qed
    have "unat (process_loop 1 i cv (replicate 100 0) ! j + 1)
        = unat (process_loop 1 i cv (replicate 100 0) ! j) + 1" if "j < 100" for j
      using bound [OF that] i2 by (intro unat_succ_exact) simp
    then show ?thesis
      using bound process_loop_snoc [OF i] by (simp add: NUM_BUCKETS_def)
  qed
  show ?thesis
    unfolding Let_def
    using a b c d by (simp add: cv_def)
qed

theorem process_values_count_bound_witness:
  "(1::UINT16) \<le> 2 \<and> 2 < NUM_CAPTURES \<and> 50 < unat NUM_BUCKETS
   \<and> unat (process_loop 1 2 (capture_values example_state) (replicate (unat NUM_BUCKETS) 0) ! 50) < unat (2::UINT16)
   \<and> sum_list (map unat (num_occurances (process_values (init_buckets example_state)))) \<le> 999"
proof -
  have i: "(1::UINT16) \<le> 2 \<and> 2 < NUM_CAPTURES" and j: "50 < unat NUM_BUCKETS"
    by (simp_all add: NUM_CAPTURES_def NUM_BUCKETS_def)
  from process_values_count_bound [of example_state]
  have "sum_list (map unat (num_occurances (process_values (init_buckets example_state)))) \<le> 999"
    and "\<forall>i. 1 \<le> i \<and> i < NUM_CAPTURES \<longrightarrow>
        (let occ = process_loop 1 i (capture_values example_state) (replicate (unat NUM_BUCKETS) 0)
         in process_loop 1 (i + 1) (capture_values example_state) (replicate (unat NUM_BUCKETS) 0)
              = process_step (capture_values example_state) i occ
            \<and> (\<forall>j < unat NUM_BUCKETS.
                  unat (occ ! j) < unat i \<and> unat (occ ! j + 1) = unat (occ ! j) + 1))"
    by simp_all
  from this(1) this(2) [THEN spec, of 2] i j show ?thesis
    by (simp add: Let_def)
qed

section \<open>Properties of the interrupt handler\<close>

subsection \<open>The three branches of the handler\<close>

lemmas assign_defs =
  write_TFLG1_def set_capture_idx_def store_capture_values_def set_finished_capturing_def
  set_TIE_C1I_def log_event_def

lemma OC1_isr_below:
  assumes "capture_idx s < NUM_CAPTURES"
  shows "OC1_isr TC1 s =
    s\<lparr>capture_values := (capture_values s)[unat (capture_idx s) := TC1],
      capture_idx := capture_idx s + 1,
      TFLG1 := TFLG1 s AND NOT TFLG1_C1F_MASK,
      history := history s @
        [Ev_store_capture_values (unat (capture_idx s)) TC1,
         Ev_set_capture_idx (capture_idx s + 1),
         Ev_write_TFLG1 TFLG1_C1F_MASK]\<rparr>"
  using assms by (simp add: OC1_isr_def assign_defs)

lemma OC1_isr_full:
  assumes "capture_idx s = NUM_CAPTURES"
  shows "OC1_isr TC1 s =
    s\<lparr>finished_capturing := 1, TIE_C1I := False,
      TFLG1 := TFLG1 s AND NOT TFLG1_C1F_MASK,
      history := history s @
        [Ev_set_TIE_C1I False, Ev_set_finished_capturing 1, Ev_write_TFLG1 TFLG1_C1F_MASK]\<rparr>"
  using assms by (simp add: OC1_isr_def assign_defs)

lemma OC1_isr_above:
  assumes "NUM_CAPTURES < capture_idx s"
  shows "OC1_isr TC1 s =
    s\<lparr>TFLG1 := TFLG1 s AND NOT TFLG1_C1F_MASK,
      history := history s @ [Ev_write_TFLG1 TFLG1_C1F_MASK]\<rparr>"
  using assms by (auto simp add: OC1_isr_def assign_defs)

lemma OC1_isr_cases:
  obtains (below) "capture_idx s < NUM_CAPTURES"
  | (full) "capture_idx s = NUM_CAPTURES"
  | (above) "NUM_CAPTURES < capture_idx s"
  by (meson linorder_neqE)

lemma and_not_mask: "(x AND NOT m) AND m = (0::UINT8)"
  by (simp add: and.assoc)

lemma OC1_isr_idx_mono: "capture_idx s \<le> capture_idx (OC1_isr TC1 s)"
proof (cases s rule: OC1_isr_cases)
  case below
  then have "unat (capture_idx s) < 1000"
    by (simp add: word_less_nat_alt NUM_CAPTURES_def)
  then have "unat (capture_idx s + 1) = unat (capture_idx s) + 1"
    by (simp add: unat_word_ariths)
  then show ?thesis
    using below by (simp add: OC1_isr_below word_le_nat_alt)
qed (simp_all add: OC1_isr_full OC1_isr_above)

lemma OC1_isr_idx_bound:
  "capture_idx s \<le> NUM_CAPTURES \<Longrightarrow> capture_idx (OC1_isr TC1 s) \<le> NUM_CAPTURES"
proof (cases s rule: OC1_isr_cases)
  case below
  then show ?thesis
    by (simp add: OC1_isr_below inc_le)
qed (simp_all add: OC1_isr_full OC1_isr_above)

lemma OC1_isr_length: "length (capture_values (OC1_isr TC1 s)) = length (capture_values s)"
  by (cases s rule: OC1_isr_cases) (simp_all add: OC1_isr_below OC1_isr_full OC1_isr_above)

lemma OC1_isr_events:
  "\<exists>es. history (OC1_isr TC1 s) = history s @ es
     \<and> (\<forall>k v. Ev_store_capture_values k v \<in> set es \<longrightarrow> k < unat NUM_CAPTURES)"
proof (cases s rule: OC1_isr_cases)
  case below
  then show ?thesis
    by (simp add: OC1_isr_below word_less_nat_alt)
qed (simp_all add: OC1_isr_full OC1_isr_above)

lemma OC1_isr_seq_idx_bound:
  "capture_idx s \<le> NUM_CAPTURES \<Longrightarrow> capture_idx (OC1_isr_seq tcs s) \<le> NUM_CAPTURES"
  by (induction tcs arbitrary: s) (simp_all add: OC1_isr_idx_bound)

lemma OC1_isr_seq_length:
  "length (capture_values (OC1_isr_seq tcs s)) = length (capture_values s)"
  by (induction tcs arbitrary: s) (simp_all add: OC1_isr_length)

lemma OC1_isr_seq_events:
  "\<exists>es. history (OC1_isr_seq tcs s) = history s @ es
     \<and> (\<forall>k v. Ev_store_capture_values k v \<in> set es \<longrightarrow> k < unat NUM_CAPTURES)"
proof (induction tcs arbitrary: s)
  case Nil
  then show ?case by simp
next
  case (Cons TC1 tcs)
  obtain es1 where es1: "history (OC1_isr TC1 s) = history s @ es1"
    "\<forall>k v. Ev_store_capture_values k v \<in> set es1 \<longrightarrow> k < unat NUM_CAPTURES"
    using OC1_isr_events by blast
  obtain es2 where es2: "history (OC1_isr_seq tcs (OC1_isr TC1 s)) = history (OC1_isr TC1 s) @ es2"
    "\<forall>k v. Ev_store_capture_values k v \<in> set es2 \<longrightarrow> k < unat NUM_CAPTURES"
    using Cons.IH by blast
  have "history (OC1_isr_seq (TC1 # tcs) s) = history s @ (es1 @ es2)"
    by (simp add: es1 es2)
  moreover have "\<forall>k v. Ev_store_capture_values k v \<in> set (es1 @ es2) \<longrightarrow> k < unat NUM_CAPTURES"
    using es1(2) es2(2) by auto
  ultimately show ?case by blast
qed

text \<open>Filling the buffer: as long as the samples fit, each invocation stores one.\<close>

lemma OC1_isr_seq_fill:
  assumes "unat (capture_idx s) + length tcs \<le> unat NUM_CAPTURES"
    and "length (capture_values s) = unat NUM_CAPTURES"
  shows "unat (capture_idx (OC1_isr_seq tcs s)) = unat (capture_idx s) + length tcs
    \<and> finished_capturing (OC1_isr_seq tcs s) = finished_capturing s
    \<and> TIE_C1I (OC1_isr_seq tcs s) = TIE_C1I s
    \<and> capture_values (OC1_isr_seq tcs s) =
        take (unat (capture_idx s)) (capture_values s) @ tcs
          @ drop (unat (capture_idx s) + length tcs) (capture_values s)"
  using assms
proof (induction tcs arbitrary: s)
  case Nil
  then show ?case by simp
next
  case (Cons TC1 tcs)
  define m where "m = unat (capture_idx s)"
  have m: "m < 1000"
    using Cons.prems(1) by (simp add: m_def NUM_CAPTURES_def)
  then have below: "capture_idx s < NUM_CAPTURES"
    by (simp add: word_less_nat_alt NUM_CAPTURES_def m_def)
  have suc: "unat (capture_idx s + 1) = Suc m"
    using m by (simp add: unat_word_ariths m_def)
  define s1 where "s1 = OC1_isr TC1 s"
  have s1: "capture_idx s1 = capture_idx s + 1"
    "capture_values s1 = (capture_values s)[m := TC1]"
    "finished_capturing s1 = finished_capturing s" "TIE_C1I s1 = TIE_C1I s"
    by (simp_all add: s1_def OC1_isr_below [OF below] m_def)
  have len: "length (capture_values s) = 1000"
    using Cons.prems(2) by (simp add: NUM_CAPTURES_def)
  have IH: "unat (capture_idx (OC1_isr_seq tcs s1)) = unat (capture_idx s1) + length tcs
    \<and> finished_capturing (OC1_isr_seq tcs s1) = finished_capturing s1
    \<and> TIE_C1I (OC1_isr_seq tcs s1) = TIE_C1I s1
    \<and> capture_values (OC1_isr_seq tcs s1) =
        take (unat (capture_idx s1)) (capture_values s1) @ tcs
          @ drop (unat (capture_idx s1) + length tcs) (capture_values s1)"
    using Cons.prems by (intro Cons.IH) (simp_all add: s1 suc m_def)
  have "take (Suc m) ((capture_values s)[m := TC1]) = take m (capture_values s) @ [TC1]"
    using m len by (simp add: take_Suc_conv_app_nth)
  moreover have "drop (Suc m + length tcs) ((capture_values s)[m := TC1])
      = drop (Suc m + length tcs) (capture_values s)"
    by simp
  ultimately show ?case
    using IH by (simp add: s1 suc flip: s1_def m_def)
qed

lemma new_events_append: "history s' = history s @ es \<Longrightarrow> new_events s s' = es"
  by (simp add: new_events_def)

lemma OC1_isr_seq_from_reset:
  assumes "capture_idx s = 0" "length (capture_values s) = unat NUM_CAPTURES"
    "length tcs \<le> unat NUM_CAPTURES"
  shows "capture_idx (OC1_isr_seq tcs s) = of_nat (length tcs)"
    and "finished_capturing (OC1_isr_seq tcs s) = finished_capturing s"
    and "TIE_C1I (OC1_isr_seq tcs s) = TIE_C1I s"
    and "capture_values (OC1_isr_seq tcs s) = tcs @ drop (length tcs) (capture_values s)"
proof -
  have fill: "unat (capture_idx (OC1_isr_seq tcs s)) = unat (capture_idx s) + length tcs
    \<and> finished_capturing (OC1_isr_seq tcs s) = finished_capturing s
    \<and> TIE_C1I (OC1_isr_seq tcs s) = TIE_C1I s
    \<and> capture_values (OC1_isr_seq tcs s) =
        take (unat (capture_idx s)) (capture_values s) @ tcs
          @ drop (unat (capture_idx s) + length tcs) (capture_values s)"
    using assms by (intro OC1_isr_seq_fill) simp_all
  then have "unat (capture_idx (OC1_isr_seq tcs s)) = length tcs"
    using assms(1) by simp
  then have "of_nat (unat (capture_idx (OC1_isr_seq tcs s))) = (of_nat (length tcs) :: UINT16)"
    by simp
  then show "capture_idx (OC1_isr_seq tcs s) = of_nat (length tcs)"
    by simp
  show "finished_capturing (OC1_isr_seq tcs s) = finished_capturing s"
    and "TIE_C1I (OC1_isr_seq tcs s) = TIE_C1I s"
    using fill by simp_all
  show "capture_values (OC1_isr_seq tcs s) = tcs @ drop (length tcs) (capture_values s)"
    using fill assms(1) by simp
qed

lemma OC1_isr_seq_append:
  "OC1_isr_seq (xs @ ys) s = OC1_isr_seq ys (OC1_isr_seq xs s)"
  by (induction xs arbitrary: s) simp_all

lemma OC1_isr_seq_full:
  assumes "capture_idx s = NUM_CAPTURES"
  shows "capture_idx (OC1_isr_seq tcs s) = NUM_CAPTURES
    \<and> capture_values (OC1_isr_seq tcs s) = capture_values s
    \<and> (tcs \<noteq> [] \<longrightarrow> finished_capturing (OC1_isr_seq tcs s) = 1 \<and> \<not> TIE_C1I (OC1_isr_seq tcs s))"
  using assms
proof (induction tcs arbitrary: s)
  case Nil
  then show ?case by simp
next
  case (Cons TC1 tcs)
  define s1 where "s1 = OC1_isr TC1 s"
  have s1: "capture_idx s1 = NUM_CAPTURES" "capture_values s1 = capture_values s"
    "finished_capturing s1 = 1" "\<not> TIE_C1I s1"
    unfolding s1_def OC1_isr_full [OF Cons.prems] using Cons.prems by simp_all
  from Cons.IH [OF s1(1)] s1 show ?case
    by (cases tcs) (simp_all flip: s1_def)
qed

lemma OC1_isr_seq_beyond:
  assumes "capture_idx s = 0" "length (capture_values s) = unat NUM_CAPTURES"
    "unat NUM_CAPTURES < length tcs"
  shows "capture_idx (OC1_isr_seq tcs s) = NUM_CAPTURES
    \<and> capture_values (OC1_isr_seq tcs s) = take (unat NUM_CAPTURES) tcs
    \<and> finished_capturing (OC1_isr_seq tcs s) = 1 \<and> \<not> TIE_C1I (OC1_isr_seq tcs s)"
proof -
  define xs where "xs = take (unat NUM_CAPTURES) tcs"
  define ys where "ys = drop (unat NUM_CAPTURES) tcs"
  have len: "length xs = unat NUM_CAPTURES" and ys: "ys \<noteq> []" and tcs: "tcs = xs @ ys"
    using assms(3) by (simp_all add: xs_def ys_def)
  have "capture_idx (OC1_isr_seq xs s) = NUM_CAPTURES"
    and "capture_values (OC1_isr_seq xs s) = xs"
    using OC1_isr_seq_from_reset(1,4) [OF assms(1,2), of xs] len assms(2) by simp_all
  with OC1_isr_seq_full [of "OC1_isr_seq xs s" ys] ys
  have "capture_idx (OC1_isr_seq (xs @ ys) s) = NUM_CAPTURES
    \<and> capture_values (OC1_isr_seq (xs @ ys) s) = xs
    \<and> finished_capturing (OC1_isr_seq (xs @ ys) s) = 1
    \<and> \<not> TIE_C1I (OC1_isr_seq (xs @ ys) s)"
    by (simp add: OC1_isr_seq_append)
  then show ?thesis
    by (simp add: xs_def ys_def)
qed

subsection \<open>Edges dispatched by the hardware\<close>

lemma capture_edge_disabled:
  "\<not> TIE_C1I s \<Longrightarrow> capture_edge TC1 s = s\<lparr>TFLG1 := TFLG1 s OR TFLG1_C1F_MASK\<rparr>"
  by (simp add: capture_edge_def)

lemma capture_edge_enabled:
  "TIE_C1I s \<Longrightarrow> capture_edge TC1 s = OC1_isr TC1 (s\<lparr>TFLG1 := TFLG1 s OR TFLG1_C1F_MASK\<rparr>)"
  by (simp add: capture_edge_def)

lemma capture_edges_disabled:
  "\<not> TIE_C1I s \<Longrightarrow> history (capture_edges tcs s) = history s"
  by (induction tcs arbitrary: s) (simp_all add: capture_edge_disabled)

lemma capture_edges_completions:
  assumes "TIE_C1I s" "capture_idx s \<le> NUM_CAPTURES"
  shows "\<exists>es. history (capture_edges tcs s) = history s @ es
    \<and> count_list es (Ev_set_finished_capturing 1) =
        (if unat NUM_CAPTURES - unat (capture_idx s) < length tcs then 1 else 0)"
  using assms
proof (induction tcs arbitrary: s)
  case Nil
  then show ?case by simp
next
  case (Cons TC1 tcs)
  define s0 where "s0 = s\<lparr>TFLG1 := TFLG1 s OR TFLG1_C1F_MASK\<rparr>"
  define s1 where "s1 = capture_edge TC1 s"
  have s1: "s1 = OC1_isr TC1 s0"
    using Cons.prems(1) by (simp add: s1_def s0_def capture_edge_enabled)
  show ?case
  proof (cases "capture_idx s = NUM_CAPTURES")
    case True
    then have full: "capture_idx s0 = NUM_CAPTURES"
      by (simp add: s0_def)
    have h1: "history s1 = history s @
        [Ev_set_TIE_C1I False, Ev_set_finished_capturing 1, Ev_write_TFLG1 TFLG1_C1F_MASK]"
      and "\<not> TIE_C1I s1"
      unfolding s1 OC1_isr_full [OF full] by (simp_all add: s0_def)
    then have "history (capture_edges tcs s1) = history s1"
      by (simp add: capture_edges_disabled)
    then have "history (capture_edges (TC1 # tcs) s) = history s @
        [Ev_set_TIE_C1I False, Ev_set_finished_capturing 1, Ev_write_TFLG1 TFLG1_C1F_MASK]"
      by (simp add: h1 flip: s1_def)
    then show ?thesis
      using True by simp
  next
    case False
    with Cons.prems(2) have lt: "capture_idx s < NUM_CAPTURES"
      by simp
    then have below: "capture_idx s0 < NUM_CAPTURES"
      by (simp add: s0_def)
    have m: "unat (capture_idx s) < 1000"
      using lt by (simp add: word_less_nat_alt NUM_CAPTURES_def)
    then have suc: "unat (capture_idx s + 1) = Suc (unat (capture_idx s))"
      by (simp add: unat_word_ariths)
    have h1: "history s1 = history s @
        [Ev_store_capture_values (unat (capture_idx s)) TC1,
         Ev_set_capture_idx (capture_idx s + 1), Ev_write_TFLG1 TFLG1_C1F_MASK]"
      and e1: "TIE_C1I s1" and i1: "capture_idx s1 = capture_idx s + 1"
      using Cons.prems(1) unfolding s1 OC1_isr_below [OF below] by (simp_all add: s0_def)
    have "capture_idx s1 \<le> NUM_CAPTURES"
      using lt by (simp add: i1 inc_le)
    from Cons.IH [OF e1 this]
    obtain es where es: "history (capture_edges tcs s1) = history s1 @ es"
      "count_list es (Ev_set_finished_capturing 1) =
        (if unat NUM_CAPTURES - unat (capture_idx s1) < length tcs then 1 else 0)"
      by blast
    have "history (capture_edges (TC1 # tcs) s) = history s @
        ([Ev_store_capture_values (unat (capture_idx s)) TC1,
          Ev_set_capture_idx (capture_idx s + 1), Ev_write_TFLG1 TFLG1_C1F_MASK] @ es)"
      by (simp add: es(1) h1 flip: s1_def)
    moreover have "count_list
        ([Ev_store_capture_values (unat (capture_idx s)) TC1,
          Ev_set_capture_idx (capture_idx s + 1), Ev_write_TFLG1 TFLG1_C1F_MASK] @ es)
        (Ev_set_finished_capturing 1) =
        (if unat NUM_CAPTURES - unat (capture_idx s) < length (TC1 # tcs) then 1 else 0)"
      using m by (auto simp add: es(2) i1 suc NUM_CAPTURES_def)
    ultimately show ?thesis by blast
  qed
qed

lemma armed_state_reset:
  "capture_idx armed_state = 0" "finished_capturing armed_state = 0"
  "length (capture_values armed_state) = unat NUM_CAPTURES" "TIE_C1I armed_state"
  by (simp_all add: armed_state_def example_snapshot_def NUM_CAPTURES_def)

lemma OC1_isr_finished:
  "finished_capturing (OC1_isr TC1 s) =
     (if capture_idx s = NUM_CAPTURES then 1 else finished_capturing s)"
  by (cases s rule: OC1_isr_cases) (auto simp add: OC1_isr_below OC1_isr_full OC1_isr_above)

subsection \<open>The claims about the handler\<close>

text \<open>
  Claim C9. Every invocation of the handler, whichever branch it takes (sample stored,
  completion signalled, or neither), acknowledges the interrupt before it returns: its
  last effect is the write of \<open>TFLG1_C1F_MASK\<close> to \<open>TFLG1\<close>, after which the flag of
  channel 1 is clear.
\<close>

theorem OC1_isr_clears_flag:
  "TFLG1 (OC1_isr TC1 s) AND TFLG1_C1F_MASK = 0
   \<and> TFLG1 (OC1_isr TC1 s) = TFLG1 s AND NOT TFLG1_C1F_MASK
   \<and> history (OC1_isr TC1 s) \<noteq> []
   \<and> last (history (OC1_isr TC1 s)) = Ev_write_TFLG1 TFLG1_C1F_MASK"
  by (cases s rule: OC1_isr_cases)
    (simp_all add: OC1_isr_below OC1_isr_full OC1_isr_above and_not_mask)

text \<open>
  Claim C2. From a reset state (cursor 0, flag false), for every sequence of invocations
  of the handler: the cursor never exceeds \<open>NUM_CAPTURES\<close>; no invocation decrements
  it; every store into \<open>capture_values\<close> is at an index below \<open>NUM_CAPTURES\<close>; no
  invocation before the 1001st finds the cursor at capacity; the 1001st, the first that
  does, stores nothing, sets the flag and disables the interrupt source; after it the
  buffer holds the first 1000 samples, whatever follows. With the interrupt source
  disabled the hardware dispatches no further invocation, so that for every sequence of
  edges completion is signalled at most once, and exactly once when there are more than
  \<open>NUM_CAPTURES\<close> edges.
\<close>

theorem OC1_isr_capacity_bound:
  assumes "capture_idx s = 0" and "finished_capturing s = 0"
    and "length (capture_values s) = unat NUM_CAPTURES"
  shows "capture_idx (OC1_isr_seq tcs s) \<le> NUM_CAPTURES
    \<and> capture_idx (OC1_isr_seq tcs s) \<le> capture_idx (OC1_isr TC1 (OC1_isr_seq tcs s))
    \<and> (\<forall>k v. Ev_store_capture_values k v \<in> set (new_events s (OC1_isr_seq tcs s))
          \<longrightarrow> k < unat NUM_CAPTURES)
    \<and> length (capture_values (OC1_isr_seq tcs s)) = unat NUM_CAPTURES
    \<and> (length tcs < unat NUM_CAPTURES \<longrightarrow>
          capture_idx (OC1_isr_seq tcs s) < NUM_CAPTURES
          \<and> finished_capturing (OC1_isr_seq tcs s) = 0)
    \<and> (length tcs = unat NUM_CAPTURES \<longrightarrow>
          (let s1 = OC1_isr_seq tcs s; s2 = OC1_isr TC1 s1
           in capture_idx s1 = NUM_CAPTURES \<and> finished_capturing s1 = 0
              \<and> capture_values s1 = tcs
              \<and> capture_values s2 = capture_values s1 \<and> capture_idx s2 = NUM_CAPTURES
              \<and> new_events s1 s2 =
                  [Ev_set_TIE_C1I False, Ev_set_finished_capturing 1,
                   Ev_write_TFLG1 TFLG1_C1F_MASK]
              \<and> finished_capturing s2 = 1 \<and> \<not> TIE_C1I s2))
    \<and> (unat NUM_CAPTURES < length tcs \<longrightarrow>
          capture_idx (OC1_isr_seq tcs s) = NUM_CAPTURES
          \<and> capture_values (OC1_isr_seq tcs s) = take (unat NUM_CAPTURES) tcs
          \<and> finished_capturing (OC1_isr_seq tcs s) = 1 \<and> \<not> TIE_C1I (OC1_isr_seq tcs s))
    \<and> (TIE_C1I s \<longrightarrow>
          count_list (new_events s (capture_edges tcs s)) (Ev_set_finished_capturing 1)
            = (if unat NUM_CAPTURES < length tcs then 1 else 0))"
proof -
  have idx0: "capture_idx s \<le> NUM_CAPTURES"
    using assms(1) by simp
  have a: "capture_idx (OC1_isr_seq tcs s) \<le> NUM_CAPTURES"
    using idx0 by (rule OC1_isr_seq_idx_bound)
  have b: "capture_idx (OC1_isr_seq tcs s) \<le> capture_idx (OC1_isr TC1 (OC1_isr_seq tcs s))"
    by (rule OC1_isr_idx_mono)
  have c: "\<forall>k v. Ev_store_capture_values k v \<in> set (new_events s (OC1_isr_seq tcs s))
      \<longrightarrow> k < unat NUM_CAPTURES"
  proof -
    obtain es where es: "history (OC1_isr_seq tcs s) = history s @ es"
      "\<forall>k v. Ev_store_capture_values k v \<in> set es \<longrightarrow> k < unat NUM_CAPTURES"
      using OC1_isr_seq_events by blast
    show ?thesis
      using es(2) by (simp add: new_events_append [OF es(1)])
  qed
  have d: "length (capture_values (OC1_isr_seq tcs s)) = unat NUM_CAPTURES"
    by (simp add: OC1_isr_seq_length assms(3))
  have e: "capture_idx (OC1_isr_seq tcs s) < NUM_CAPTURES
      \<and> finished_capturing (OC1_isr_seq tcs s) = 0"
    if "length tcs < unat NUM_CAPTURES"
  proof -
    have "unat (of_nat (length tcs) :: UINT16) = length tcs"
      using that by (simp add: unat_of_nat NUM_CAPTURES_def)
    then have "(of_nat (length tcs) :: UINT16) < NUM_CAPTURES"
      using that by (simp add: word_less_nat_alt)
    then show ?thesis
      using OC1_isr_seq_from_reset(1,2) [OF assms(1,3), of tcs] that assms(2) by simp
  qed
  have f: "(let s1 = OC1_isr_seq tcs s; s2 = OC1_isr TC1 s1
           in capture_idx s1 = NUM_CAPTURES \<and> finished_capturing s1 = 0
              \<and> capture_values s1 = tcs
              \<and> capture_values s2 = capture_values s1 \<and> capture_idx s2 = NUM_CAPTURES
              \<and> new_events s1 s2 =
                  [Ev_set_TIE_C1I False, Ev_set_finished_capturing 1,
                   Ev_write_TFLG1 TFLG1_C1F_MASK]
              \<and> finished_capturing s2 = 1 \<and> \<not> TIE_C1I s2)"
    if len: "length tcs = unat NUM_CAPTURES"
  proof -
    define s1 where "s1 = OC1_isr_seq tcs s"
    have full: "capture_idx s1 = NUM_CAPTURES"
      using OC1_isr_seq_from_reset(1) [OF assms(1,3), of tcs] len by (simp add: s1_def)
    have fin: "finished_capturing s1 = 0"
      using OC1_isr_seq_from_reset(2) [OF assms(1,3), of tcs] len assms(2) by (simp add: s1_def)
    have cv: "capture_values s1 = tcs"
      using OC1_isr_seq_from_reset(4) [OF assms(1,3), of tcs] len assms(3) by (simp add: s1_def)
    show ?thesis
      unfolding Let_def
      using full fin cv by (simp add: OC1_isr_full [OF full] new_events_def flip: s1_def)
  qed
  have g: "count_list (new_events s (capture_edges tcs s)) (Ev_set_finished_capturing 1)
            = (if unat NUM_CAPTURES < length tcs then 1 else 0)"
    if "TIE_C1I s"
    using capture_edges_completions [OF that idx0, of tcs] assms(1)
    by (auto simp add: new_events_append)
  have h: "capture_idx (OC1_isr_seq tcs s) = NUM_CAPTURES
      \<and> capture_values (OC1_isr_seq tcs s) = take (unat NUM_CAPTURES) tcs
      \<and> finished_capturing (OC1_isr_seq tcs s) = 1 \<and> \<not> TIE_C1I (OC1_isr_seq tcs s)"
    if "unat NUM_CAPTURES < length tcs"
    using assms(1,3) that by (rule OC1_isr_seq_beyond)
  show ?thesis
    using a b c d e f g h by blast
qed

theorem OC1_isr_capacity_bound_witness:
  "capture_idx armed_state = 0 \<and> finished_capturing armed_state = 0
   \<and> length (capture_values armed_state) = unat NUM_CAPTURES \<and> TIE_C1I armed_state
   \<and> length (replicate 1000 (7::UINT16)) = unat NUM_CAPTURES
   \<and> capture_idx (OC1_isr_seq (replicate 1000 7) armed_state) = NUM_CAPTURES
   \<and> capture_values (OC1_isr 9 (OC1_isr_seq (replicate 1000 7) armed_state)) = replicate 1000 7
   \<and> finished_capturing (OC1_isr 9 (OC1_isr_seq (replicate 1000 7) armed_state)) = 1
   \<and> count_list (new_events armed_state (capture_edges (replicate 1003 7) armed_state))
        (Ev_set_finished_capturing 1) = 1"
  using armed_state_reset
    OC1_isr_capacity_bound [OF armed_state_reset(1,2,3), of "replicate 1000 7" 9]
    OC1_isr_capacity_bound [OF armed_state_reset(1,2,3), of "replicate 1003 7" 9]
  by (simp add: Let_def NUM_CAPTURES_def)

text \<open>
  Claim C3, as stated, fails: after the 1000 invocations that fill the buffer of
  \<open>armed_state\<close>, the last of which stores the 1000th sample and makes the cursor equal
  to \<open>NUM_CAPTURES\<close>, \<open>finished_capturing\<close> is still 0.
\<close>

theorem flag_false_when_buffer_full:
  "capture_idx armed_state = 0 \<and> finished_capturing armed_state = 0
   \<and> capture_values (OC1_isr_seq (replicate 1000 7) armed_state) = replicate 1000 7
   \<and> capture_idx (OC1_isr_seq (replicate 1000 7) armed_state) = NUM_CAPTURES
   \<and> finished_capturing (OC1_isr_seq (replicate 1000 7) armed_state) = 0"
  using OC1_isr_seq_from_reset [OF armed_state_reset(1,3), of "replicate 1000 7"]
  by (simp add: armed_state_reset NUM_CAPTURES_def)

text \<open>
  Claim C3, amended. An invocation of the handler sets \<open>finished_capturing\<close> exactly
  when it finds the cursor equal to \<open>NUM_CAPTURES\<close>, and leaves the flag as it is
  otherwise. So the flag is still false immediately after the invocation that stores the
  last sample of a round, and it reads true immediately after the next invocation.
\<close>

theorem flag_set_by_next_invocation:
  "finished_capturing (OC1_isr TC1 s) =
     (if capture_idx s = NUM_CAPTURES then 1 else finished_capturing s)
   \<and> (capture_idx s = 0 \<and> finished_capturing s = 0
        \<and> length (capture_values s) = unat NUM_CAPTURES \<and> length tcs = unat NUM_CAPTURES
      \<longrightarrow> capture_values (OC1_isr_seq tcs s) = tcs
          \<and> capture_idx (OC1_isr_seq tcs s) = NUM_CAPTURES
          \<and> finished_capturing (OC1_isr_seq tcs s) = 0
          \<and> finished_capturing (OC1_isr TC1 (OC1_isr_seq tcs s)) = 1)"
proof -
  have "capture_values (OC1_isr_seq tcs s) = tcs
      \<and> capture_idx (OC1_isr_seq tcs s) = NUM_CAPTURES
      \<and> finished_capturing (OC1_isr_seq tcs s) = 0
      \<and> finished_capturing (OC1_isr TC1 (OC1_isr_seq tcs s)) = 1"
    if "capture_idx s = 0" "finished_capturing s = 0"
      "length (capture_values s) = unat NUM_CAPTURES" "length tcs = unat NUM_CAPTURES"
    using OC1_isr_seq_from_reset [OF that(1,3), of tcs] that
    by (simp add: OC1_isr_finished)
  then show ?thesis
    by (simp add: OC1_isr_finished)
qed

theorem flag_set_by_next_invocation_witness:
  "capture_idx armed_state = 0 \<and> finished_capturing armed_state = 0
   \<and> length (capture_values armed_state) = unat NUM_CAPTURES
   \<and> length (replicate 1000 (7::UINT16)) = unat NUM_CAPTURES
   \<and> finished_capturing (OC1_isr_seq (replicate 1000 7) armed_state) = 0
   \<and> finished_capturing (OC1_isr 9 (OC1_isr_seq (replicate 1000 7) armed_state)) = 1"
  using armed_state_reset flag_set_by_next_invocation [of 9 armed_state "replicate 1000 7"]
  by (simp add: NUM_CAPTURES_def)

section \<open>Properties of the report\<close>

lemma print_loop_history:
  "print_loop i s =
     s\<lparr>history := history s @
        map (\<lambda>k. Ev_printf (Bucket_line (of_nat k + LOW_PERIOD) (num_occurances s ! k)))
          (filter (\<lambda>k. num_occurances s ! k \<noteq> 0) [unat i..<unat NUM_BUCKETS])\<rparr>"
proof (induction i s rule: print_loop.induct)
  case (1 i s)
  show ?case
  proof (cases "i < NUM_BUCKETS")
    case True
    then have lt: "unat i < unat NUM_BUCKETS"
      by (simp add: word_less_nat_alt)
    have suc: "unat (i + 1) = Suc (unat i)"
      using True by (rule unat_succ_less)
    have upt: "[unat i..<unat NUM_BUCKETS] = unat i # [Suc (unat i)..<unat NUM_BUCKETS]"
      using lt by (simp add: upt_conv_Cons)
    show ?thesis
      using True "1.IH" [OF True]
      by (subst print_loop.simps) (simp add: upt suc printf_def log_event_def)
  next
    case False
    then have "\<not> unat i < unat NUM_BUCKETS"
      by (simp add: word_less_nat_alt)
    then show ?thesis
      using False by (subst print_loop.simps) simp
  qed
qed

lemma print_values_history:
  "print_values s =
     s\<lparr>history := history s @
        [Ev_printf (''Finished capturing.'' @ CRLF),
         Ev_printf (''100 Buckets used; omitting empty buckets.'' @ CRLF)] @
        map (\<lambda>k. Ev_printf (Bucket_line (of_nat k + LOW_PERIOD) (num_occurances s ! k)))
          (filter (\<lambda>k. num_occurances s ! k \<noteq> 0) [0..<unat NUM_BUCKETS])\<rparr>"
  by (simp add: print_values_def print_loop_history printf_def log_event_def)

lemma serial_out_append: "serial_out (xs @ ys) = serial_out xs @ serial_out ys"
  by (induction xs rule: serial_out.induct) simp_all

lemma serial_out_printf: "serial_out (map (\<lambda>k. Ev_printf (f k)) ks) = concat (map f ks)"
  by (induction ks) simp_all

lemma sint_small: "unat (w::UINT16) < 32768 \<Longrightarrow> sint w = int (unat w)"
proof -
  assume small: "unat w < 32768"
  have u: "uint w = int (unat w)"
    by (rule uint_nat)
  with small have "uint w < 32768" and "- 32768 \<le> uint w"
    by linarith+
  then have "uint w < 2 ^ 15" and "- (2 ^ 15) \<le> uint w"
    by simp_all
  then have "signed_take_bit 15 (uint w) = uint w"
    by (simp only: signed_take_bit_int_eq_self)
  moreover have "sint w = signed_take_bit 15 (uint w)"
    by (simp only: sint_uint) simp
  ultimately show ?thesis
    using u by (simp only:)
qed

lemma dec_digits_length: "1 \<le> length (dec_digits n)"
  by (subst dec_digits.simps) simp

lemma dec_digits_length3: "100 \<le> n \<Longrightarrow> 3 \<le> length (dec_digits n)"
proof -
  assume n: "100 \<le> n"
  then have "dec_digits n = dec_digits (n div 10) @ [digit_char (n mod 10)]"
    by (subst dec_digits.simps) simp
  moreover have "\<not> n div 10 < 10"
    using n by simp
  then have "dec_digits (n div 10) =
      dec_digits (n div 10 div 10) @ [digit_char (n div 10 mod 10)]"
    by (subst dec_digits.simps) (simp only: if_False)
  ultimately show ?thesis
    using dec_digits_length [of "n div 10 div 10"] by simp
qed

lemma fmt_d_count: "unat c < 32768 \<Longrightarrow> fmt_d 0 c = dec_digits (unat c)"
  by (simp add: fmt_d_def show_int_def sint_small)

lemma fmt_d_period:
  assumes "i < unat NUM_BUCKETS"
  shows "fmt_d 3 (of_nat i + LOW_PERIOD) = dec_digits (i + unat LOW_PERIOD)"
proof -
  have i: "i < 100"
    using assms by (simp add: NUM_BUCKETS_def)
  have "(of_nat i + LOW_PERIOD :: UINT16) = of_nat (i + 950)"
    by (simp add: LOW_PERIOD_def)
  moreover have "unat (of_nat (i + 950) :: UINT16) = i + 950"
    using i by (simp only: unat_of_nat16)
  ultimately have u: "unat (of_nat i + LOW_PERIOD :: UINT16) = i + 950"
    by simp
  then have "sint (of_nat i + LOW_PERIOD :: UINT16) = int (i + 950)"
    using i by (simp add: sint_small)
  moreover have "nat (int i + 950) = i + 950"
    by simp
  ultimately show ?thesis
    using dec_digits_length3 [of "i + 950"]
    by (simp add: fmt_d_def show_int_def LOW_PERIOD_def Let_def)
qed

lemma filter_3_80: "filter (\<lambda>i. i = 3 \<or> i = 80) [0..<100] = [3, 80::nat]"
  by code_simp

lemma dec_953: "dec_digits 953 = ''953''" and dec_1030: "dec_digits 1030 = ''1030''"
  by (simp_all add: dec_digits.simps digit_char_def)

lemma print_values_output:
  "serial_out (new_events s (print_values s)) =
     ''Finished capturing.'' @ CRLF @ ''100 Buckets used; omitting empty buckets.'' @ CRLF @
     concat (map (\<lambda>i. ''Bucket '' @ fmt_d 3 (of_nat i + LOW_PERIOD) @ '': ''
                        @ fmt_d 0 (num_occurances s ! i) @ CRLF)
               (filter (\<lambda>i. num_occurances s ! i \<noteq> 0) [0..<unat NUM_BUCKETS]))"
  by (simp add: print_values_history new_events_def serial_out_append serial_out_printf
      Bucket_line_def)

lemma filter_3: "filter (\<lambda>i. i = 3) [0..<100] = [3::nat]"
  by code_simp

lemma fmt_d_40000: "fmt_d 0 40000 = ''-25536''"
  by (simp add: fmt_d_def show_int_def dec_digits.simps digit_char_def)

text \<open>
  Claim C6, as stated, fails for a table with a count above 32767: the counter is passed
  to \<open>%d\<close>, which reads it as a signed 16-bit number. For the table that holds 40000 at
  index 3 and zero elsewhere, the line sent is \<open>Bucket 953: -25536\<close>, not
  \<open>Bucket 953: 40000\<close>.
\<close>

theorem print_values_count_above_32767:
  "unat (num_occurances (example_state\<lparr>num_occurances := (replicate 100 0)[3 := 40000]\<rparr>) ! 3)
     = 40000
   \<and> serial_out (new_events
        (example_state\<lparr>num_occurances := (replicate 100 0)[3 := 40000]\<rparr>)
        (print_values (example_state\<lparr>num_occurances := (replicate 100 0)[3 := 40000]\<rparr>)))
      = ''Finished capturing.'' @ CRLF @ ''100 Buckets used; omitting empty buckets.'' @ CRLF
        @ ''Bucket 953: -25536'' @ CRLF
   \<and> serial_out (new_events
        (example_state\<lparr>num_occurances := (replicate 100 0)[3 := 40000]\<rparr>)
        (print_values (example_state\<lparr>num_occurances := (replicate 100 0)[3 := 40000]\<rparr>)))
      \<noteq> ''Finished capturing.'' @ CRLF @ ''100 Buckets used; omitting empty buckets.'' @ CRLF
        @ ''Bucket 953: 40000'' @ CRLF"
proof -
  define S where "S = example_state\<lparr>num_occurances := (replicate 100 0)[3 := 40000]\<rparr>"
  have n: "num_occurances S ! 3 = 40000"
    by (simp add: S_def)
  have "filter (\<lambda>i. num_occurances S ! i \<noteq> 0) [0..<100] = filter (\<lambda>i. i = 3) [0..<100]"
    by (intro filter_cong) (simp_all add: S_def nth_list_update)
  then have f: "filter (\<lambda>i. num_occurances S ! i \<noteq> 0) [0..<unat NUM_BUCKETS] = [3]"
    by (simp only: filter_3 NUM_BUCKETS_def) simp
  have p: "fmt_d 3 (of_nat 3 + LOW_PERIOD) = ''953''"
    using fmt_d_period [of 3] by (simp add: NUM_BUCKETS_def LOW_PERIOD_def dec_953)
  have out: "serial_out (new_events S (print_values S))
      = ''Finished capturing.'' @ CRLF @ ''100 Buckets used; omitting empty buckets.'' @ CRLF
        @ ''Bucket 953: -25536'' @ CRLF"
    unfolding print_values_output f using p by (simp add: n fmt_d_40000)
  have "unat (num_occurances S ! 3) = 40000"
    by (simp add: n)
  moreover have "serial_out (new_events S (print_values S))
      \<noteq> ''Finished capturing.'' @ CRLF @ ''100 Buckets used; omitting empty buckets.'' @ CRLF
        @ ''Bucket 953: 40000'' @ CRLF"
    unfolding out by simp
  ultimately show ?thesis
    using out unfolding S_def by blast
qed

text \<open>
  Claim C6, amended. For every bucket table, \<open>print_values\<close> changes nothing but the
  serial output, and sends the two heading lines and then, for each index with a non-zero
  count and no other, in ascending order, one line produced by \<open>printf\<close> with the format
  \<open>Bucket %3d: %d\<close>; the period is the decimal numeral of index + \<open>LOW_PERIOD\<close>, which
  has at least three digits. For every bucket table whose counts are all at most 32767
  the line is \<open>Bucket <index + LOW_PERIOD>: <count>\<close>, with the count as its decimal
  numeral; such a table that is non-zero at the indices 3 and 80 only gives the two lines
  for the periods 953 and 1030, in this order.
\<close>

theorem print_values_report:
  "print_values s = s\<lparr>history := history (print_values s)\<rparr>
   \<and> serial_out (new_events s (print_values s)) =
       ''Finished capturing.'' @ CRLF @ ''100 Buckets used; omitting empty buckets.'' @ CRLF @
       concat (map (\<lambda>i. ''Bucket '' @ fmt_d 3 (of_nat i + LOW_PERIOD) @ '': ''
                          @ fmt_d 0 (num_occurances s ! i) @ CRLF)
                 (filter (\<lambda>i. num_occurances s ! i \<noteq> 0) [0..<unat NUM_BUCKETS]))
   \<and> (\<forall>i < unat NUM_BUCKETS.
         fmt_d 3 (of_nat i + LOW_PERIOD) = dec_digits (i + unat LOW_PERIOD)
         \<and> 3 \<le> length (dec_digits (i + unat LOW_PERIOD)))
   \<and> (\<forall>i. unat (num_occurances s ! i) < 32768 \<longrightarrow>
         fmt_d 0 (num_occurances s ! i) = dec_digits (unat (num_occurances s ! i)))
   \<and> ((\<forall>i < unat NUM_BUCKETS. unat (num_occurances s ! i) < 32768) \<longrightarrow>
         serial_out (new_events s (print_values s)) =
           ''Finished capturing.'' @ CRLF
           @ ''100 Buckets used; omitting empty buckets.'' @ CRLF
           @ concat (map (\<lambda>i. ''Bucket '' @ dec_digits (i + unat LOW_PERIOD) @ '': ''
                               @ dec_digits (unat (num_occurances s ! i)) @ CRLF)
                      (filter (\<lambda>i. num_occurances s ! i \<noteq> 0) [0..<unat NUM_BUCKETS])))
   \<and> ((\<forall>i < unat NUM_BUCKETS. (num_occurances s ! i \<noteq> 0) = (i = 3 \<or> i = 80)) \<longrightarrow>
         serial_out (new_events s (print_values s)) =
           ''Finished capturing.'' @ CRLF
           @ ''100 Buckets used; omitting empty buckets.'' @ CRLF
           @ ''Bucket 953: '' @ fmt_d 0 (num_occurances s ! 3) @ CRLF
           @ ''Bucket 1030: '' @ fmt_d 0 (num_occurances s ! 80) @ CRLF)
   \<and> ((\<forall>i < unat NUM_BUCKETS. unat (num_occurances s ! i) < 32768
           \<and> (num_occurances s ! i \<noteq> 0) = (i = 3 \<or> i = 80)) \<longrightarrow>
         serial_out (new_events s (print_values s)) =
           ''Finished capturing.'' @ CRLF
           @ ''100 Buckets used; omitting empty buckets.'' @ CRLF
           @ ''Bucket 953: '' @ dec_digits (unat (num_occurances s ! 3)) @ CRLF
           @ ''Bucket 1030: '' @ dec_digits (unat (num_occurances s ! 80)) @ CRLF)"
proof -
  have a: "print_values s = s\<lparr>history := history (print_values s)\<rparr>"
    by (simp add: print_values_history)
  note b = print_values_output [of s]
  have c: "fmt_d 3 (of_nat i + LOW_PERIOD) = dec_digits (i + unat LOW_PERIOD)
      \<and> 3 \<le> length (dec_digits (i + unat LOW_PERIOD))" if "i < unat NUM_BUCKETS" for i
    using fmt_d_period [OF that] dec_digits_length3 [of "i + unat LOW_PERIOD"]
    by (simp add: LOW_PERIOD_def)
  have d: "fmt_d 0 (num_occurances s ! i) = dec_digits (unat (num_occurances s ! i))"
    if "unat (num_occurances s ! i) < 32768" for i
    using that by (rule fmt_d_count)
  have e: "serial_out (new_events s (print_values s)) =
           ''Finished capturing.'' @ CRLF
           @ ''100 Buckets used; omitting empty buckets.'' @ CRLF
           @ ''Bucket 953: '' @ fmt_d 0 (num_occurances s ! 3) @ CRLF
           @ ''Bucket 1030: '' @ fmt_d 0 (num_occurances s ! 80) @ CRLF"
    if h: "\<forall>i < unat NUM_BUCKETS. (num_occurances s ! i \<noteq> 0) = (i = 3 \<or> i = 80)"
  proof -
    have "filter (\<lambda>i. num_occurances s ! i \<noteq> 0) [0..<100] = filter (\<lambda>i. i = 3 \<or> i = 80) [0..<100]"
      using h by (intro filter_cong) (simp_all add: NUM_BUCKETS_def)
    then have f: "filter (\<lambda>i. num_occurances s ! i \<noteq> 0) [0..<unat NUM_BUCKETS] = [3, 80]"
      by (simp only: filter_3_80 NUM_BUCKETS_def) simp
    have p: "fmt_d 3 (of_nat 3 + LOW_PERIOD) = ''953''" "fmt_d 3 (of_nat 80 + LOW_PERIOD) = ''1030''"
      using fmt_d_period [of 3] fmt_d_period [of 80]
      by (simp_all add: NUM_BUCKETS_def LOW_PERIOD_def dec_953 dec_1030)
    show ?thesis
      unfolding b f using p by simp
  qed
  have f: "serial_out (new_events s (print_values s)) =
           ''Finished capturing.'' @ CRLF
           @ ''100 Buckets used; omitting empty buckets.'' @ CRLF
           @ concat (map (\<lambda>i. ''Bucket '' @ dec_digits (i + unat LOW_PERIOD) @ '': ''
                               @ dec_digits (unat (num_occurances s ! i)) @ CRLF)
                      (filter (\<lambda>i. num_occurances s ! i \<noteq> 0) [0..<unat NUM_BUCKETS]))"
    if h: "\<forall>i < unat NUM_BUCKETS. unat (num_occurances s ! i) < 32768"
  proof -
    have "map (\<lambda>i. ''Bucket '' @ fmt_d 3 (of_nat i + LOW_PERIOD) @ '': ''
                          @ fmt_d 0 (num_occurances s ! i) @ CRLF)
            (filter (\<lambda>i. num_occurances s ! i \<noteq> 0) [0..<unat NUM_BUCKETS])
        = map (\<lambda>i. ''Bucket '' @ dec_digits (i + unat LOW_PERIOD) @ '': ''
                               @ dec_digits (unat (num_occurances s ! i)) @ CRLF)
            (filter (\<lambda>i. num_occurances s ! i \<noteq> 0) [0..<unat NUM_BUCKETS])"
    proof (rule map_cong [OF refl])
      fix i assume "i \<in> set (filter (\<lambda>i. num_occurances s ! i \<noteq> 0) [0..<unat NUM_BUCKETS])"
      then have i: "i < unat NUM_BUCKETS"
        by simp
      with h have "unat (num_occurances s ! i) < 32768"
        by blast
      with c [OF i] d [of i]
      show "''Bucket '' @ fmt_d 3 (of_nat i + LOW_PERIOD) @ '': ''
              @ fmt_d 0 (num_occurances s ! i) @ CRLF
          = ''Bucket '' @ dec_digits (i + unat LOW_PERIOD) @ '': ''
              @ dec_digits (unat (num_occurances s ! i)) @ CRLF"
        by simp
    qed
    then show ?thesis
      unfolding b by (simp only:)
  qed
  have g: "serial_out (new_events s (print_values s)) =
           ''Finished capturing.'' @ CRLF
           @ ''100 Buckets used; omitting empty buckets.'' @ CRLF
           @ ''Bucket 953: '' @ dec_digits (unat (num_occurances s ! 3)) @ CRLF
           @ ''Bucket 1030: '' @ dec_digits (unat (num_occurances s ! 80)) @ CRLF"
    if h: "\<forall>i < unat NUM_BUCKETS. unat (num_occurances s ! i) < 32768
           \<and> (num_occurances s ! i \<noteq> 0) = (i = 3 \<or> i = 80)"
  proof -
    have "unat (num_occurances s ! 3) < 32768" "unat (num_occurances s ! 80) < 32768"
      using h by (simp_all add: NUM_BUCKETS_def)
    then have "fmt_d 0 (num_occurances s ! 3) = dec_digits (unat (num_occurances s ! 3))"
      "fmt_d 0 (num_occurances s ! 80) = dec_digits (unat (num_occurances s ! 80))"
      by (simp_all add: fmt_d_count)
    moreover have "\<forall>i < unat NUM_BUCKETS. (num_occurances s ! i \<noteq> 0) = (i = 3 \<or> i = 80)"
      using h by blast
    ultimately show ?thesis
      using e by (simp only:)
  qed
  show ?thesis
    using a b c d e f g by blast
qed

theorem print_values_report_witness:
  "serial_out (new_events
      (example_state\<lparr>num_occurances := (replicate 100 0)[3 := 7, 80 := 12]\<rparr>)
      (print_values (example_state\<lparr>num_occurances := (replicate 100 0)[3 := 7, 80 := 12]\<rparr>)))
    = ''Finished capturing.'' @ CRLF @ ''100 Buckets used; omitting empty buckets.'' @ CRLF
      @ ''Bucket 953: 7'' @ CRLF @ ''Bucket 1030: 12'' @ CRLF"
proof -
  define S where "S = example_state\<lparr>num_occurances := (replicate 100 0)[3 := 7, 80 := 12]\<rparr>"
  have h: "\<forall>i < unat NUM_BUCKETS. unat (num_occurances S ! i) < 32768
      \<and> (num_occurances S ! i \<noteq> 0) = (i = 3 \<or> i = 80)"
    by (simp add: S_def NUM_BUCKETS_def nth_list_update)
  have c: "dec_digits (unat (num_occurances S ! 3)) = ''7''"
    "dec_digits (unat (num_occurances S ! 80)) = ''12''"
    by (simp_all add: S_def dec_digits.simps digit_char_def)
  from print_values_report [of S]
  have "(\<forall>i < unat NUM_BUCKETS. unat (num_occurances S ! i) < 32768
           \<and> (num_occurances S ! i \<noteq> 0) = (i = 3 \<or> i = 80)) \<longrightarrow>
         serial_out (new_events S (print_values S)) =
           ''Finished capturing.'' @ CRLF
           @ ''100 Buckets used; omitting empty buckets.'' @ CRLF
           @ ''Bucket 953: '' @ dec_digits (unat (num_occurances S ! 3)) @ CRLF
           @ ''Bucket 1030: '' @ dec_digits (unat (num_occurances S ! 80)) @ CRLF"
    by blast
  with h have "serial_out (new_events S (print_values S)) =
           ''Finished capturing.'' @ CRLF
           @ ''100 Buckets used; omitting empty buckets.'' @ CRLF
           @ ''Bucket 953: '' @ dec_digits (unat (num_occurances S ! 3)) @ CRLF
           @ ''Bucket 1030: '' @ dec_digits (unat (num_occurances S ! 80)) @ CRLF"
    by (rule rev_mp)
  then have "serial_out (new_events S (print_values S)) =
      ''Finished capturing.'' @ CRLF @ ''100 Buckets used; omitting empty buckets.'' @ CRLF
      @ ''Bucket 953: 7'' @ CRLF @ ''Bucket 1030: 12'' @ CRLF"
    by (simp add: c)
  then show ?thesis
    by (simp only: S_def)
qed

section \<open>Properties of the session controller\<close>

lemma do_step_finished:
  "finished_capturing s \<noteq> 0 \<Longrightarrow> finished_capturing (do_step x s) \<noteq> 0"
  by (cases x)
    (simp_all add: OC1_isr_finished process_values_def print_values_history post_capture_def)

lemma pre_capture_finished: "finished_capturing (outcome_state (pre_capture s)) = 0"
  by (simp add: pre_capture_def Let_def GetChar_def printf_def init_buckets_def assign_defs
      split: list.split)

lemma pre_capture_Returned:
  assumes "SCI0_rx s = c # cs"
  shows "pre_capture s = Returned
    (s\<lparr>num_occurances := replicate (unat NUM_BUCKETS) 0, finished_capturing := 0,
       capture_idx := 0, SCI0_rx := cs, TIE_C1I := True,
       history := history s @
         [Ev_printf (''Strike enter to begin capture.'' @ CRLF), Ev_memset_num_occurances,
          Ev_set_finished_capturing 0, Ev_set_capture_idx 0, Ev_GetChar c,
          Ev_set_TIE_C1I True]\<rparr>)"
  using assms
  by (simp add: pre_capture_def Let_def GetChar_def printf_def init_buckets_def assign_defs)

lemma pre_capture_Blocked:
  assumes "SCI0_rx s = []"
  shows "pre_capture s = Blocked
    (s\<lparr>num_occurances := replicate (unat NUM_BUCKETS) 0, finished_capturing := 0,
       capture_idx := 0,
       history := history s @
         [Ev_printf (''Strike enter to begin capture.'' @ CRLF), Ev_memset_num_occurances,
          Ev_set_finished_capturing 0, Ev_set_capture_idx 0]\<rparr>)"
  using assms
  by (simp add: pre_capture_def Let_def GetChar_def printf_def init_buckets_def assign_defs)

text \<open>
  Claim C4. Once \<open>finished_capturing\<close> is true, it stays true through every sequence
  of invocations of the handler and of calls of \<open>process_values\<close>, \<open>print_values\<close> and
  \<open>post_capture\<close>; the next call of \<open>pre_capture\<close> makes it false.
\<close>

theorem finished_capturing_stays_set:
  assumes "finished_capturing s \<noteq> 0"
  shows "finished_capturing (do_steps steps s) \<noteq> 0
    \<and> finished_capturing (outcome_state (pre_capture (do_steps steps s))) = 0"
proof -
  have "finished_capturing (do_steps steps s) \<noteq> 0"
    using assms by (induction steps arbitrary: s) (simp_all add: do_step_finished)
  then show ?thesis
    by (simp add: pre_capture_finished)
qed

theorem finished_capturing_stays_set_witness:
  "finished_capturing example_state \<noteq> 0
   \<and> finished_capturing
       (do_steps [Step_OC1_isr 7, Step_process_values, Step_print_values, Step_post_capture]
          example_state) \<noteq> 0
   \<and> finished_capturing (outcome_state (pre_capture
       (do_steps [Step_OC1_isr 7, Step_process_values, Step_print_values, Step_post_capture]
          example_state))) = 0"
proof -
  have h: "finished_capturing example_state \<noteq> 0"
    by (simp add: example_state_def)
  show ?thesis
    using h finished_capturing_stays_set [OF h, of "[Step_OC1_isr 7, Step_process_values, Step_print_values, Step_post_capture]"]
    by simp
qed

text \<open>
  Claim C8, as stated, fails: \<open>pre_capture\<close> resets the bucket table, the flag and the
  cursor before it calls \<open>GetChar\<close>, not after the operator has answered. In the history
  of a call the three resets come before the character is read; and when the operator
  never answers, the call stays in \<open>GetChar\<close> with the resets already made.
\<close>

theorem pre_capture_resets_before_GetChar:
  "history (example_state\<lparr>SCI0_rx := [13]\<rparr>) = []
   \<and> history (outcome_state (pre_capture (example_state\<lparr>SCI0_rx := [13]\<rparr>))) =
       [Ev_printf (''Strike enter to begin capture.'' @ CRLF), Ev_memset_num_occurances,
        Ev_set_finished_capturing 0, Ev_set_capture_idx 0, Ev_GetChar 13, Ev_set_TIE_C1I True]
   \<and> \<not> occurs_before (Ev_GetChar 13) Ev_memset_num_occurances
         (history (outcome_state (pre_capture (example_state\<lparr>SCI0_rx := [13]\<rparr>))))
   \<and> \<not> occurs_before (Ev_GetChar 13) (Ev_set_finished_capturing 0)
         (history (outcome_state (pre_capture (example_state\<lparr>SCI0_rx := [13]\<rparr>))))
   \<and> \<not> occurs_before (Ev_GetChar 13) (Ev_set_capture_idx 0)
         (history (outcome_state (pre_capture (example_state\<lparr>SCI0_rx := [13]\<rparr>))))
   \<and> finished_capturing example_state = 1 \<and> capture_idx example_state = 1000
   \<and> SCI0_rx example_state = []
   \<and> pre_capture example_state = Blocked
        (example_state\<lparr>finished_capturing := 0, capture_idx := 0,
           history := [Ev_printf (''Strike enter to begin capture.'' @ CRLF),
             Ev_memset_num_occurances, Ev_set_finished_capturing 0, Ev_set_capture_idx 0]\<rparr>)"
proof -
  have rx: "SCI0_rx (example_state\<lparr>SCI0_rx := [13]\<rparr>) = 13 # []"
    by simp
  have rx0: "SCI0_rx example_state = []"
    by (simp add: example_state_def)
  show ?thesis
    unfolding pre_capture_Returned [OF rx] pre_capture_Blocked [OF rx0]
    by (simp add: example_state_def NUM_BUCKETS_def)
qed

text \<open>
  Claim C8, amended. In every round \<open>pre_capture\<close> prints the prompt, then resets the
  bucket table, the completion flag and the cursor, then waits in \<open>GetChar\<close> for the
  operator, and only then enables the interrupt source: the resets come before the wait
  for the operator, and arming comes after it. When the operator never answers, the
  resets have been made and the interrupt source is as it was.
\<close>

theorem pre_capture_order:
  "(SCI0_rx s = c # cs \<longrightarrow>
      pre_capture s = Returned
        (s\<lparr>num_occurances := replicate (unat NUM_BUCKETS) 0, finished_capturing := 0,
           capture_idx := 0, SCI0_rx := cs, TIE_C1I := True,
           history := history s @
             [Ev_printf (''Strike enter to begin capture.'' @ CRLF), Ev_memset_num_occurances,
              Ev_set_finished_capturing 0, Ev_set_capture_idx 0, Ev_GetChar c,
              Ev_set_TIE_C1I True]\<rparr>)
      \<and> (let es = new_events s (outcome_state (pre_capture s))
         in occurs_before (Ev_printf (''Strike enter to begin capture.'' @ CRLF))
              Ev_memset_num_occurances es
          \<and> occurs_before Ev_memset_num_occurances (Ev_GetChar c) es
          \<and> occurs_before (Ev_set_finished_capturing 0) (Ev_GetChar c) es
          \<and> occurs_before (Ev_set_capture_idx 0) (Ev_GetChar c) es
          \<and> occurs_before (Ev_GetChar c) (Ev_set_TIE_C1I True) es
          \<and> count_list es (Ev_set_TIE_C1I True) = 1))
   \<and> (SCI0_rx s = [] \<longrightarrow>
      pre_capture s = Blocked
        (s\<lparr>num_occurances := replicate (unat NUM_BUCKETS) 0, finished_capturing := 0,
           capture_idx := 0,
           history := history s @
             [Ev_printf (''Strike enter to begin capture.'' @ CRLF), Ev_memset_num_occurances,
              Ev_set_finished_capturing 0, Ev_set_capture_idx 0]\<rparr>))"
proof -
  have "occurs_before (Ev_printf (''Strike enter to begin capture.'' @ CRLF))
          Ev_memset_num_occurances (new_events s (outcome_state (pre_capture s)))
      \<and> occurs_before Ev_memset_num_occurances (Ev_GetChar c)
          (new_events s (outcome_state (pre_capture s)))
      \<and> occurs_before (Ev_set_finished_capturing 0) (Ev_GetChar c)
          (new_events s (outcome_state (pre_capture s)))
      \<and> occurs_before (Ev_set_capture_idx 0) (Ev_GetChar c)
          (new_events s (outcome_state (pre_capture s)))
      \<and> occurs_before (Ev_GetChar c) (Ev_set_TIE_C1I True)
          (new_events s (outcome_state (pre_capture s)))
      \<and> count_list (new_events s (outcome_state (pre_capture s))) (Ev_set_TIE_C1I True) = 1"
    if "SCI0_rx s = c # cs"
    unfolding pre_capture_Returned [OF that] by (simp add: new_events_def)
  then show ?thesis
    unfolding Let_def using pre_capture_Returned pre_capture_Blocked by blast
qed

theorem pre_capture_order_witness:
  "SCI0_rx (example_state\<lparr>SCI0_rx := [13]\<rparr>) = [13]
   \<and> TIE_C1I (outcome_state (pre_capture (example_state\<lparr>SCI0_rx := [13]\<rparr>)))
   \<and> occurs_before Ev_memset_num_occurances (Ev_GetChar 13)
        (new_events (example_state\<lparr>SCI0_rx := [13]\<rparr>)
           (outcome_state (pre_capture (example_state\<lparr>SCI0_rx := [13]\<rparr>))))
   \<and> occurs_before (Ev_GetChar 13) (Ev_set_TIE_C1I True)
        (new_events (example_state\<lparr>SCI0_rx := [13]\<rparr>)
           (outcome_state (pre_capture (example_state\<lparr>SCI0_rx := [13]\<rparr>))))"
proof -
  have rx: "SCI0_rx (example_state\<lparr>SCI0_rx := [13]\<rparr>) = [13]"
    by simp
  from pre_capture_order [of "example_state\<lparr>SCI0_rx := [13]\<rparr>" 13 "[]"] rx
  show ?thesis
    by (simp add: Let_def new_events_def)
qed

end
